theory Spec2Isabelle
  imports Complex_Main "HOL-Library.AList"
begin

section \<open>JavaScript values used by the program\<close>

text \<open>
  A JavaScript number is a double; a finite one is modelled as the \<^typ>\<open>real\<close> it
  denotes, so comparison and negation are exact, and the one sum the program computes
  on doubles is rounded (\<open>dadd\<close> below). Array indices and counters are \<^typ>\<open>nat\<close>.
  A thrown exception is a value of \<open>error\<close>: \<open>Error msg\<close> is
  \<^verbatim>\<open>new Error(msg)\<close> (the message is empty when \<^verbatim>\<open>msg\<close> is undefined) and
  \<open>TypeError\<close> is the error of writing a property of \<^verbatim>\<open>undefined\<close>.
\<close>

datatype error = Error string | TypeError

definition and_then :: "error + 'a \<Rightarrow> ('a \<Rightarrow> error + 'b) \<Rightarrow> error + 'b" where
  "and_then m f = (case m of Inl e \<Rightarrow> Inl e | Inr x \<Rightarrow> f x)"

fun mapM :: "('a \<Rightarrow> error + 'b) \<Rightarrow> 'a list \<Rightarrow> error + 'b list" where
  "mapM f [] = Inr []"
| "mapM f (x # xs) = and_then (f x) (\<lambda>y. and_then (mapM f xs) (\<lambda>ys. Inr (y # ys)))"

fun foldM :: "('a \<Rightarrow> 's \<Rightarrow> error + 's) \<Rightarrow> 'a list \<Rightarrow> 's \<Rightarrow> error + 's" where
  "foldM f [] s = Inr s"
| "foldM f (x # xs) s = and_then (f x s) (foldM f xs)"

subsection \<open>Addition of doubles\<close>

text \<open>
  \<^verbatim>\<open>x + y\<close> on doubles is the exact sum rounded to the nearest double, a tie going
  to the double whose significand is even. A double is an integer multiple of its
  quantum \<open>2 ^ (e - 52)\<close>, where \<open>e\<close> is the binary exponent of the number and never
  below \<open>-1022\<close> (the subnormal numbers share the quantum \<open>2 ^ -1074\<close>);
  \<open>round_even\<close> rounds the number of quanta. \<^verbatim>\<open>NaN\<close> and the infinities are not
  modelled: a sum whose magnitude reaches \<open>2 ^ 1024\<close> stays finite here, where
  JavaScript yields \<^verbatim>\<open>Infinity\<close>.
\<close>

definition round_even :: "real \<Rightarrow> int" where
  "round_even y = (let f = \<lfloor>y\<rfloor> in
     if y - of_int f < 1 / 2 then f
     else if 1 / 2 < y - of_int f then f + 1
     else if even f then f else f + 1)"

definition quantum :: "real \<Rightarrow> real" where
  "quantum x = 2 powi (max \<lfloor>log 2 \<bar>x\<bar>\<rfloor> (- 1022) - 52)"

definition round_double :: "real \<Rightarrow> real" where
  "round_double x = (if x = 0 then 0 else of_int (round_even (x / quantum x)) * quantum x)"

definition dadd :: "real \<Rightarrow> real \<Rightarrow> real" where
  "dadd x y = round_double (x + y)"

subsection \<open>Template literals\<close>

text \<open>\<^verbatim>\<open>`${i}`\<close> for a non-negative integer index: its decimal digits.\<close>

definition digit :: "nat \<Rightarrow> char" where
  "digit d = char_of (48 + d)"

function show_nat :: "nat \<Rightarrow> string" where
  "show_nat n = (if n < 10 then [digit n] else show_nat (n div 10) @ [digit (n mod 10)])"
  by pat_completeness auto
termination
  by (relation "measure id") auto

declare show_nat.simps [simp del]

text \<open>\<^verbatim>\<open>Array.prototype.join\<close> on strings.\<close>

fun join :: "string \<Rightarrow> string list \<Rightarrow> string" where
  "join sep [] = []"
| "join sep [x] = x"
| "join sep (x # y # ys) = x @ sep @ join sep (y # ys)"

subsection \<open>Plain objects used as tables\<close>

text \<open>
  A \<^verbatim>\<open>Record<string, V>\<close> that starts as \<^verbatim>\<open>{}\<close> is an association list of its own
  properties in insertion order. \<^verbatim>\<open>obj[k] = v\<close> is \<open>AList.update\<close>: it overwrites
  in place or appends. Reading \<^verbatim>\<open>obj[k]\<close> finds own properties first and then the
  members every plain object inherits from \<^verbatim>\<open>Object.prototype\<close>, which are all
  truthy; \<open>proto_member\<close> lists their names. \<^verbatim>\<open>Object.keys\<close> lists own keys that
  are canonical array indices first, in ascending numeric order, and then the other
  keys in insertion order.
\<close>

definition proto_member :: "string \<Rightarrow> bool" where
  "proto_member k = (k \<in> set [''constructor'', ''hasOwnProperty'', ''isPrototypeOf'',
     ''propertyIsEnumerable'', ''toLocaleString'', ''toString'', ''valueOf'', ''__proto__'',
     ''__defineGetter__'', ''__defineSetter__'', ''__lookupGetter__'', ''__lookupSetter__''])"

definition is_digit :: "char \<Rightarrow> bool" where
  "is_digit c = (48 \<le> (of_char c :: nat) \<and> (of_char c :: nat) \<le> 57)"

definition num_of :: "string \<Rightarrow> nat" where
  "num_of s = foldl (\<lambda>n c. 10 * n + ((of_char c :: nat) - 48)) 0 s"

definition is_array_index :: "string \<Rightarrow> bool" where
  "is_array_index s = (s \<noteq> [] \<and> list_all is_digit s \<and> (s = ''0'' \<or> hd s \<noteq> CHR ''0'')
     \<and> num_of s < 2 ^ 32 - 1)"

definition Object_keys :: "(string \<times> 'a) list \<Rightarrow> string list" where
  "Object_keys obj = sort_key num_of (filter is_array_index (map fst obj))
     @ filter (\<lambda>k. \<not> is_array_index k) (map fst obj)"

section \<open>lp: variables, linear expressions, constraints\<close>

datatype vtype = continuous | integer

text \<open>
  \<^verbatim>\<open>class Var<T>\<close>. Variables are compared by reference (\<^verbatim>\<open>!==\<close>), so every instance
  carries the identity \<open>oid\<close> it got when it was allocated; two instances are the same
  object exactly when they are equal as records.
\<close>

record 't Var =
  oid :: nat
  type :: vtype
  name :: string
  lowerBound :: "real option"
  upperBound :: "real option"
  auxData :: "'t option"

definition new_Var :: "nat \<Rightarrow> vtype \<Rightarrow> string \<Rightarrow> real option \<Rightarrow> real option \<Rightarrow> 't Var" where
  "new_Var i ty n lo up =
     \<lparr>oid = i, type = ty, name = n, lowerBound = lo, upperBound = up, auxData = None\<rparr>"

definition RealVar :: "nat \<Rightarrow> string \<Rightarrow> real option \<Rightarrow> real option \<Rightarrow> 't Var" where
  "RealVar i n lo up = new_Var i continuous n lo up"

definition IntVar :: "nat \<Rightarrow> string \<Rightarrow> real option \<Rightarrow> real option \<Rightarrow> 't Var" where
  "IntVar i n lo up = new_Var i integer n lo up"

definition BoolVar :: "nat \<Rightarrow> string \<Rightarrow> 't Var" where
  "BoolVar i n = IntVar i n (Some 0) (Some 1)"

definition set_auxData :: "'t Var \<Rightarrow> 't \<Rightarrow> 't Var" where
  "set_auxData v a = v\<lparr>auxData := Some a\<rparr>"

definition isReal :: "'t Var \<Rightarrow> bool" where
  "isReal v = (type v = continuous)"

definition isBool :: "'t Var \<Rightarrow> bool" where
  "isBool v = (\<not> isReal v \<and> lowerBound v = Some 0 \<and> upperBound v = Some 1)"

definition isInt :: "'t Var \<Rightarrow> bool" where
  "isInt v = (\<not> isReal v \<and> \<not> isBool v)"

definition bounded :: "'t Var \<Rightarrow> bool" where
  "bounded v = (lowerBound v \<noteq> None \<or> upperBound v \<noteq> None)"

text \<open>
  \<^verbatim>\<open>class LinExpr<T>\<close>. Its two private tables \<^verbatim>\<open>keys\<close> and \<^verbatim>\<open>values\<close> are written
  only by \<^verbatim>\<open>setCoefficient\<close>, both under the same name, so they are kept as one table
  from the name to the pair of the variable and its coefficient.
\<close>

record 't LinExpr =
  terms :: "(string \<times> 't Var \<times> real) list"

definition new_LinExpr :: "'t LinExpr" where
  "new_LinExpr = \<lparr>terms = []\<rparr>"

text \<open>\<^verbatim>\<open>checkVar\<close>: \<^verbatim>\<open>this.keys[v.name] && this.keys[v.name] !== v\<close>.\<close>

definition checkVar :: "('t, 'z) LinExpr_scheme \<Rightarrow> 't Var \<Rightarrow> error + unit" where
  "checkVar e v =
     (case map_of (terms e) (Var.name v) of
        Some (w, _) \<Rightarrow>
          if w \<noteq> v then Inl (Error (''Mismatching variable named '' @ Var.name v)) else Inr ()
      | None \<Rightarrow>
          if proto_member (Var.name v)
          then Inl (Error (''Mismatching variable named '' @ Var.name v)) else Inr ())"

definition setCoefficient ::
  "('t, 'z) LinExpr_scheme \<Rightarrow> 't Var \<Rightarrow> real \<Rightarrow> error + ('t, 'z) LinExpr_scheme" where
  "setCoefficient e v n =
     and_then (checkVar e v)
       (\<lambda>_. Inr (e\<lparr>terms := AList.update (Var.name v) (v, n) (terms e)\<rparr>))"

definition getCoefficient :: "('t, 'z) LinExpr_scheme \<Rightarrow> 't Var \<Rightarrow> error + real option" where
  "getCoefficient e v =
     and_then (checkVar e v) (\<lambda>_. Inr (map_option snd (map_of (terms e) (Var.name v))))"

text \<open>
  \<^verbatim>\<open>getVarCoefficients\<close>: the terms in the order of \<^verbatim>\<open>Object.keys\<close>; every key
  listed is in the table, so the lookup is always defined.
\<close>

definition getVarCoefficients :: "('t, 'z) LinExpr_scheme \<Rightarrow> ('t Var \<times> real) list" where
  "getVarCoefficients e = map (\<lambda>k. the (map_of (terms e) k)) (Object_keys (terms e))"

text \<open>
  \<^verbatim>\<open>LinExpr.toString\<close>. How a number is printed (\<^verbatim>\<open>`${abs}`\<close>) is the parameter
  \<open>num\<close>.
\<close>

definition term_text :: "(real \<Rightarrow> string) \<Rightarrow> nat \<Rightarrow> 't Var \<Rightarrow> real \<Rightarrow> string" where
  "term_text num i v c =
     (let join = (if i \<noteq> 0 then ''+ '' else '''');
          sign = (if c < 0 then ''- '' else join);
          abs = \<bar>c\<bar>;
          coeff = (if abs = 1 then '''' else num abs @ '' '')
      in sign @ coeff @ Var.name v)"

definition toString :: "(real \<Rightarrow> string) \<Rightarrow> ('t, 'z) LinExpr_scheme \<Rightarrow> string" where
  "toString num e =
     join '' '' (map (\<lambda>(i, v, c). term_text num i v c) (enumerate 0 (getVarCoefficients e)))"

text \<open>\<^verbatim>\<open>class Constraint<T> extends LinExpr<T>\<close>.\<close>

record 't Constraint = "'t LinExpr" +
  name :: string
  lowerBound :: "real option"
  upperBound :: "real option"

definition new_Constraint :: "string \<Rightarrow> real option \<Rightarrow> real option \<Rightarrow> 't Constraint" where
  "new_Constraint n lo up = \<lparr>terms = [], name = n, lowerBound = lo, upperBound = up\<rparr>"

definition Constraint_toString :: "(real \<Rightarrow> string) \<Rightarrow> 't Constraint \<Rightarrow> string" where
  "Constraint_toString num c =
     (let r = toString num c;
          r = (case lowerBound c of Some lo \<Rightarrow> num lo @ '' <= '' @ r | None \<Rightarrow> r);
          r = (case upperBound c of Some up \<Rightarrow> r @ '' <= '' @ num up | None \<Rightarrow> r)
      in r)"

definition toLP :: "(real \<Rightarrow> string) \<Rightarrow> 't Constraint \<Rightarrow> string" where
  "toLP num c =
     (if name c \<noteq> '''' then name c @ '': '' @ Constraint_toString num c
      else Constraint_toString num c)"

definition toConstraint :: "'t Var \<Rightarrow> error + 't Constraint" where
  "toConstraint v =
     setCoefficient
       (new_Constraint (''c['' @ Var.name v @ '']'') (Var.lowerBound v) (Var.upperBound v)) v 1"

text \<open>
  \<^verbatim>\<open>saturate\<close>: every variable of every constraint gets coefficient 0 in a new
  expression, then the objective's own terms are written over it.
\<close>

definition saturate ::
  "'t LinExpr \<Rightarrow> 't Constraint list \<Rightarrow> error + 't LinExpr" where
  "saturate objective constraints =
     and_then
       (foldM (\<lambda>constraint. foldM (\<lambda>(v, _) e. setCoefficient e v 0) (getVarCoefficients constraint))
          constraints new_LinExpr)
       (foldM (\<lambda>(v, coefficient) e. setCoefficient e v coefficient) (getVarCoefficients objective))"

text \<open>
  \<^verbatim>\<open>minimize\<close>. The external engine receives the variables (name, bounds, type,
  objective coefficient) and the constraints (bounds and terms by name); an absent
  bound stands for the infinity the source passes. What the engine answers is the
  parameter \<open>solver\<close>: \<open>None\<close> when \<^verbatim>\<open>solution.isValid()\<close> is false, otherwise the
  value of each variable by name.
\<close>

record engine =
  variables :: "(string \<times> real option \<times> real option \<times> vtype \<times> real) list"
  rows :: "(real option \<times> real option \<times> (string \<times> real) list) list"

definition make_engine :: "'t LinExpr \<Rightarrow> 't Constraint list \<Rightarrow> engine" where
  "make_engine newObjective constraints =
     \<lparr>variables =
        map (\<lambda>(v, objectiveCoefficient).
               (Var.name v, Var.lowerBound v, Var.upperBound v, type v, objectiveCoefficient))
          (getVarCoefficients newObjective),
      rows =
        map (\<lambda>constraint.
               (lowerBound constraint, upperBound constraint,
                map (\<lambda>(v, coefficient). (Var.name v, coefficient)) (getVarCoefficients constraint)))
          constraints\<rparr>"

definition minimize ::
  "(engine \<Rightarrow> (string \<Rightarrow> real) option) \<Rightarrow> 't LinExpr \<Rightarrow> 't Constraint list
     \<Rightarrow> error + 't LinExpr option" where
  "minimize solver objective constraints =
     and_then (saturate objective constraints) (\<lambda>newObjective.
       case solver (make_engine newObjective constraints) of
         None \<Rightarrow> Inr None
       | Some solution \<Rightarrow>
           and_then
             (foldM (\<lambda>(v, _) result. setCoefficient result v (solution (Var.name v)))
                (getVarCoefficients newObjective) new_LinExpr)
             (\<lambda>result. Inr (Some result)))"

text \<open>\<^verbatim>\<open>exportAsLP\<close>.\<close>

definition exportAsLP ::
  "(real \<Rightarrow> string) \<Rightarrow> 't LinExpr \<Rightarrow> 't Constraint list \<Rightarrow> error + string" where
  "exportAsLP num objective constraints =
     and_then (saturate objective constraints) (\<lambda>newObjective.
       let vars = map fst (getVarCoefficients newObjective);
           binVars = filter isBool vars;
           intVars = filter isInt vars;
           constrainedVars = filter bounded (filter (\<lambda>v. \<not> isBool v) vars)
       in and_then (mapM toConstraint constrainedVars) (\<lambda>cv.
            let c = cv @ constraints;
                footer = [];
                footer = (if binVars \<noteq> []
                          then footer @ ''bin '' @ join '', '' (map Var.name binVars) @ '';\<newline>''
                          else footer);
                footer = (if intVars \<noteq> []
                          then footer @ ''int '' @ join '', '' (map Var.name intVars) @ '';\<newline>''
                          else footer)
            in Inr (''minimize: '' @ toString num objective @ '';\<newline>''
                    @ concat (map (\<lambda>c. toLP num c @ '';\<newline>'') c) @ ''\<newline>'' @ footer)))"

section \<open>scheduling: building the linear program\<close>

record AuxData =
  rider :: nat
  t1 :: nat
  t2 :: nat

text \<open>The seven parameters of \<^verbatim>\<open>makeLP\<close>.\<close>

record input =
  duration :: "real list"
  expected :: "real list"
  expectedOfType :: "(string \<times> real list) list"
  riderType :: "string list"
  available :: "bool list list"
  guaranteed :: "real list"
  minDuration :: real

definition numRiders :: "input \<Rightarrow> nat" where
  "numRiders inp = length (guaranteed inp)"

definition numTimeSlices :: "input \<Rightarrow> nat" where
  "numTimeSlices inp = length (expected inp)"

definition types :: "input \<Rightarrow> string list" where
  "types inp = Object_keys (expectedOfType inp)"

definition assert :: "bool \<Rightarrow> string option \<Rightarrow> error + unit" where
  "assert condition msg =
     (if \<not> condition then Inl (Error (case msg of None \<Rightarrow> [] | Some m \<Rightarrow> m)) else Inr ())"

definition append_defined :: "'a list \<Rightarrow> 'a option list \<Rightarrow> 'a list" where
  "append_defined dest source = dest @ concat (map (\<lambda>x. case x of Some y \<Rightarrow> [y] | None \<Rightarrow> []) source)"

definition makeRecord :: "string list \<Rightarrow> (string \<Rightarrow> 'v) \<Rightarrow> (string \<times> 'v) list" where
  "makeRecord ks f = foldl (\<lambda>r key. AList.update key (f key) r) [] ks"

text \<open>
  The shape checks, in the order of the source. Every type that \<^verbatim>\<open>Object.keys\<close>
  lists is an own key, so the third check always finds an array. In the last check
  \<^verbatim>\<open>expectedOfType[type]\<close> is truthy when \<^verbatim>\<open>type\<close> is an own key (an array is truthy
  even when empty) and also when it names an inherited member.
\<close>

definition check_shapes :: "input \<Rightarrow> error + unit" where
  "check_shapes inp =
     and_then (assert (length (duration inp) = numTimeSlices inp) None) (\<lambda>_.
     and_then (assert (length (expected inp) = numTimeSlices inp) None) (\<lambda>_.
     and_then (assert (list_all (\<lambda>type. case map_of (expectedOfType inp) type of
                                   Some xs \<Rightarrow> length xs = numTimeSlices inp | None \<Rightarrow> False)
                         (types inp)) None) (\<lambda>_.
     and_then (assert (length (riderType inp) = numRiders inp) None) (\<lambda>_.
     and_then (assert (length (available inp) = numTimeSlices inp) None) (\<lambda>_.
     and_then (assert (list_all (\<lambda>a. length a = numRiders inp) (available inp)) None) (\<lambda>_.
     and_then (assert (length (guaranteed inp) = numRiders inp) None) (\<lambda>_.
     and_then (assert (list_all (\<lambda>d. 0 \<le> d) (duration inp)) None) (\<lambda>_.
     and_then (assert (list_all (\<lambda>count. 0 \<le> count \<and> count \<le> real (numRiders inp))
                         (expected inp)) None) (\<lambda>_.
     assert (list_all (\<lambda>type. map_of (expectedOfType inp) type \<noteq> None \<or> proto_member type)
               (riderType inp)) None)))))))))"

text \<open>
  The closure \<^verbatim>\<open>solve\<close> that \<^verbatim>\<open>makeLP\<close> returns, given the objective and the
  constraints it captures. The grid is an array of arrays; a cell is \<open>Some b\<close> for the
  boolean \<open>b\<close> and \<open>None\<close> for a hole. Writing \<^verbatim>\<open>row[t] = true\<close> past the end
  of a row grows the row and leaves holes; writing into a row that does not exist is a
  TypeError.
\<close>

definition write_cell :: "bool option list \<Rightarrow> nat \<Rightarrow> bool option list" where
  "write_cell row t =
     (if t < length row then row[t := Some True]
      else row @ replicate (t - length row) None @ [Some True])"

definition assign :: "nat \<Rightarrow> nat \<Rightarrow> bool option list list \<Rightarrow> error + bool option list list" where
  "assign r t assignment =
     (if r < length assignment then Inr (assignment[r := write_cell (assignment ! r) t])
      else Inl TypeError)"

definition decode_var ::
  "AuxData Var \<times> real \<Rightarrow> bool option list list \<Rightarrow> error + bool option list list" where
  "decode_var vc assignment =
     (case vc of (v, c) \<Rightarrow>
        (case auxData v of
           Some a \<Rightarrow>
             if c > 0.5 then foldM (assign (rider a)) [t1 a..<Suc (t2 a)] assignment
             else Inr assignment
         | None \<Rightarrow> Inr assignment))"

definition solve ::
  "(engine \<Rightarrow> (string \<Rightarrow> real) option) \<Rightarrow> input \<Rightarrow> AuxData LinExpr \<Rightarrow> AuxData Constraint list
     \<Rightarrow> error + bool option list list option" where
  "solve solver inp objective constraints =
     and_then (minimize solver objective constraints) (\<lambda>solution.
       case solution of
         None \<Rightarrow> Inr None
       | Some solution \<Rightarrow>
           and_then
             (foldM decode_var (getVarCoefficients solution)
                (map (\<lambda>_. map (\<lambda>_. Some False) (expected inp)) (guaranteed inp)))
             (\<lambda>assignment. Inr (Some assignment)))"

text \<open>
  The local variables of \<^verbatim>\<open>makeLP\<close> that the loops update, and their initial values.
  \<^verbatim>\<open>makeRecord\<close> is called with the own keys of \<^verbatim>\<open>expectedOfType\<close>, so
  \<^verbatim>\<open>expectedOfType[type]\<close> is always found there.
\<close>

record locals =
  objective :: "AuxData LinExpr"
  timeCounted :: "AuxData Constraint list"
  haveEnoughRiders :: "AuxData Constraint option list"
  haveEnoughRidersOfType :: "(string \<times> AuxData Constraint option list) list"
  disjointAllocations :: "AuxData Constraint option list list"
  timeCoefficient :: nat

definition init_locals :: "input \<Rightarrow> locals" where
  "init_locals inp =
     \<lparr>objective = new_LinExpr,
      timeCounted =
        map (\<lambda>rider. new_Constraint (''timeCounted['' @ show_nat rider @ '']'') (Some 0) None)
          [0..<numRiders inp],
      haveEnoughRiders =
        map (\<lambda>(t, count).
               if count \<noteq> 0
               then Some (new_Constraint (''enough['' @ show_nat t @ '']'') (Some count) None)
               else None)
          (enumerate 0 (expected inp)),
      haveEnoughRidersOfType =
        makeRecord (types inp) (\<lambda>type.
          map (\<lambda>(t, count).
                 if count \<noteq> 0
                 then Some (new_Constraint (''enough['' @ type @ '']['' @ show_nat t @ '']'')
                              (Some count) None)
                 else None)
            (enumerate 0 (the (map_of (expectedOfType inp) type)))),
      disjointAllocations =
        map (\<lambda>rider.
               map (\<lambda>t. if available inp ! t ! rider
                         then Some (new_Constraint
                                      (''disjoint['' @ show_nat rider @ '']['' @ show_nat t @ '']'')
                                      None (Some 1))
                         else None)
                 [0..<numTimeSlices inp])
          [0..<numRiders inp],
      timeCoefficient = 0\<rparr>"

text \<open>\<^verbatim>\<open>c?.setCoefficient(v, n)\<close> on an array element that may be undefined.\<close>

definition opt_setCoefficient ::
  "'t Constraint option \<Rightarrow> 't Var \<Rightarrow> real \<Rightarrow> error + 't Constraint option" where
  "opt_setCoefficient c v n =
     (case c of None \<Rightarrow> Inr None | Some c \<Rightarrow> and_then (setCoefficient c v n) (\<lambda>c. Inr (Some c)))"

text \<open>
  The body of the innermost loop \<^verbatim>\<open>for (let t = t1; t <= t2; t += 1)\<close>. When the
  rider's type is no own key of \<^verbatim>\<open>haveEnoughRidersOfType\<close> (it passed the check as
  an inherited name), the element read is undefined and nothing is set. The loops run
  after the shape checks, with \<open>r\<close> below the number of riders and \<open>t\<close> below the
  number of slots, so every index is within its array.
\<close>

definition cover :: "input \<Rightarrow> AuxData Var \<Rightarrow> nat \<Rightarrow> nat \<Rightarrow> locals \<Rightarrow> error + locals" where
  "cover inp v r t s =
     and_then (opt_setCoefficient (haveEnoughRiders s ! t) v 1) (\<lambda>c.
       let s = s\<lparr>haveEnoughRiders := (haveEnoughRiders s)[t := c]\<rparr> in
       and_then
         (case map_of (haveEnoughRidersOfType s) (riderType inp ! r) of
            None \<Rightarrow> Inr s
          | Some row \<Rightarrow>
              and_then (opt_setCoefficient (row ! t) v 1) (\<lambda>c.
                Inr (s\<lparr>haveEnoughRidersOfType :=
                         AList.update (riderType inp ! r) (row[t := c])
                           (haveEnoughRidersOfType s)\<rparr>)))
         (\<lambda>s.
       and_then (opt_setCoefficient (disjointAllocations s ! r ! t) v 1) (\<lambda>c.
         Inr (s\<lparr>disjointAllocations :=
                  (disjointAllocations s)[r := (disjointAllocations s ! r)[t := c]]\<rparr>))))"

text \<open>
  The body of \<^verbatim>\<open>if (d >= minDuration)\<close>: one candidate variable. The loop
  variables \<^verbatim>\<open>rider\<close>, \<^verbatim>\<open>t1\<close>, \<^verbatim>\<open>t2\<close> are written \<open>r\<close>, \<open>i\<close>, \<open>j\<close>, since the
  fields of \<open>AuxData\<close> carry those names. The \<open>n\<close>-th variable allocated gets the
  identity \<open>n\<close>.
\<close>

definition candidate_name :: "nat \<Rightarrow> nat \<Rightarrow> nat \<Rightarrow> string" where
  "candidate_name r i j =
     ''a['' @ show_nat r @ '']['' @ show_nat i @ ''..'' @ show_nat j @ '']''"

definition add_candidate ::
  "input \<Rightarrow> nat \<Rightarrow> nat \<Rightarrow> nat \<Rightarrow> real \<Rightarrow> locals \<Rightarrow> error + locals" where
  "add_candidate inp r i j d s =
     (let v = set_auxData (BoolVar (timeCoefficient s) (candidate_name r i j))
                \<lparr>rider = r, t1 = i, t2 = j\<rparr>
      in and_then (setCoefficient (objective s) v 1) (\<lambda>obj.
         and_then (setCoefficient (timeCounted s ! r) v (- d)) (\<lambda>tc.
         and_then (foldM (cover inp v r) [i..<Suc j]
                     (s\<lparr>objective := obj, timeCounted := (timeCounted s)[r := tc]\<rparr>)) (\<lambda>s.
         Inr (s\<lparr>timeCoefficient := timeCoefficient s + 1\<rparr>)))))"

text \<open>
  \<^verbatim>\<open>for (let t2 = t1; t2 < numTimeSlices && available[t2][rider]; t2 += 1)\<close> with the
  running sum \<^verbatim>\<open>d\<close>; \<^verbatim>\<open>d += duration[t2]\<close> is an addition of doubles.
\<close>

function loop_t2 :: "input \<Rightarrow> nat \<Rightarrow> nat \<Rightarrow> nat \<Rightarrow> real \<Rightarrow> locals \<Rightarrow> error + locals" where
  "loop_t2 inp r i j d s =
     (if j < numTimeSlices inp \<and> available inp ! j ! r
      then let d = dadd d (duration inp ! j)
           in if d \<ge> minDuration inp
              then and_then (add_candidate inp r i j d s) (loop_t2 inp r i (j + 1) d)
              else loop_t2 inp r i (j + 1) d s
      else Inr s)"
  by pat_completeness auto
termination
  by (relation "measure (\<lambda>(inp, r, i, j, d, s). numTimeSlices inp - j)") auto

declare loop_t2.simps [simp del]

definition loop_t1 :: "input \<Rightarrow> nat \<Rightarrow> locals \<Rightarrow> error + locals" where
  "loop_t1 inp r s = foldM (\<lambda>i. loop_t2 inp r i i 0) [0..<numTimeSlices inp] s"

definition loop_rider :: "input \<Rightarrow> locals \<Rightarrow> error + locals" where
  "loop_rider inp s = foldM (loop_t1 inp) [0..<numRiders inp] s"

text \<open>The second loop: one continuous variable \<^verbatim>\<open>time[rider]\<close> per rider.\<close>

definition time_name :: "nat \<Rightarrow> string" where
  "time_name r = ''time['' @ show_nat r @ '']''"

definition add_time :: "input \<Rightarrow> nat \<Rightarrow> locals \<Rightarrow> error + locals" where
  "add_time inp r s =
     (let v = RealVar (timeCoefficient s + r) (time_name r)
                (Some (guaranteed inp ! r)) None
      in and_then (setCoefficient (objective s) v (real (timeCoefficient s))) (\<lambda>obj.
         and_then (setCoefficient (timeCounted s ! r) v 1) (\<lambda>tc.
         Inr (s\<lparr>objective := obj, timeCounted := (timeCounted s)[r := tc]\<rparr>))))"

text \<open>
  The constraint list. \<^verbatim>\<open>haveEnoughRidersOfType\<close> has an entry for every type that
  \<^verbatim>\<open>types\<close> lists (part of the invariant \<open>shaped\<close> below), so the lookup is always
  defined.
\<close>

definition all_constraints :: "input \<Rightarrow> locals \<Rightarrow> AuxData Constraint list" where
  "all_constraints inp s =
     (let constraints = timeCounted s;
          constraints = append_defined constraints (haveEnoughRiders s);
          constraints = foldl (\<lambda>cs type. append_defined cs
                                 (the (map_of (haveEnoughRidersOfType s) type)))
                          constraints (types inp);
          constraints = foldl append_defined constraints (disjointAllocations s)
      in constraints)"

text \<open>
  \<^verbatim>\<open>makeLP\<close> up to the point where it returns its two closures: the objective and
  the constraint list they capture.
\<close>

definition makeLP :: "input \<Rightarrow> error + AuxData LinExpr \<times> AuxData Constraint list" where
  "makeLP inp =
     and_then (check_shapes inp) (\<lambda>_.
     and_then (loop_rider inp (init_locals inp)) (\<lambda>s.
     and_then (foldM (add_time inp) [0..<numRiders inp] s) (\<lambda>s.
     Inr (objective s, all_constraints inp s))))"

section \<open>Notions used to state the properties\<close>

text \<open>
  The variables of an expression, as \<^verbatim>\<open>getVarCoefficients\<close> lists them, and the
  coefficient stored for a variable.
\<close>

definition vars :: "('t, 'z) LinExpr_scheme \<Rightarrow> 't Var set" where
  "vars e = fst ` set (getVarCoefficients e)"

definition coeff :: "('t, 'z) LinExpr_scheme \<Rightarrow> 't Var \<Rightarrow> real option" where
  "coeff e v = map_option snd (map_of (terms e) (Var.name v))"

text \<open>
  The invariant of the class \<^verbatim>\<open>LinExpr\<close>: its table is private and changed by
  \<^verbatim>\<open>setCoefficient\<close> alone, so every key is the name of the variable stored under
  it, and none is the name of an inherited member.
\<close>

definition wf_expr :: "('t, 'z) LinExpr_scheme \<Rightarrow> bool" where
  "wf_expr e = (distinct (map fst (terms e)) \<and>
     list_all (\<lambda>(k, v, c). k = Var.name v \<and> \<not> proto_member k) (terms e))"

subsection \<open>Small expressions used as examples\<close>

text \<open>Two different instances named \<^verbatim>\<open>x\<close> and one instance named \<^verbatim>\<open>y\<close>.\<close>

definition x_first :: "unit Var" where
  "x_first = RealVar 0 ''x'' None None"

definition x_second :: "unit Var" where
  "x_second = RealVar 1 ''x'' None None"

definition y_only :: "unit Var" where
  "y_only = RealVar 2 ''y'' None None"

definition objective_x :: "unit LinExpr" where
  "objective_x = \<lparr>terms = [(''x'', x_first, 2)]\<rparr>"

definition constraint_x_second :: "unit Constraint" where
  "constraint_x_second =
     \<lparr>terms = [(''x'', x_second, 1)], name = ''c'', lowerBound = None, upperBound = None\<rparr>"

definition constraint_xy :: "unit Constraint" where
  "constraint_xy =
     \<lparr>terms = [(''x'', x_first, 5), (''y'', y_only, 3)], name = ''c'', lowerBound = Some 0,
      upperBound = None\<rparr>"

text \<open>
  An objective whose first term has a negative coefficient, and a constraint created
  with the empty name, \<^verbatim>\<open>new Constraint('', 0)\<close>.
\<close>

definition objective_negative :: "unit LinExpr" where
  "objective_negative = \<lparr>terms = [(''x'', x_first, - 2)]\<rparr>"

definition constraint_unnamed :: "unit Constraint" where
  "constraint_unnamed =
     \<lparr>terms = [(''x'', x_first, 1)], name = [], lowerBound = Some 0, upperBound = None\<rparr>"

subsection \<open>Candidates\<close>

text \<open>
  \<open>run_sum inp i j\<close> is the accumulated duration of the slots \<open>i, ..., j - 1\<close>: the
  durations added one by one, from slot \<open>i\<close> on, to a sum that starts at 0, every
  addition rounded to a double. \<open>exact_sum inp i j\<close> is the sum of the durations of
  the range \<open>[i, j]\<close> in the real numbers.
\<close>

definition run_sum :: "input \<Rightarrow> nat \<Rightarrow> nat \<Rightarrow> real" where
  "run_sum inp i j = foldl dadd 0 (map (\<lambda>t. duration inp ! t) [i..<j])"

definition exact_sum :: "input \<Rightarrow> nat \<Rightarrow> nat \<Rightarrow> real" where
  "exact_sum inp i j = (\<Sum>t = i..j. duration inp ! t)"

text \<open>
  A shift candidate: rider \<open>r\<close> is available at every slot of the range \<open>[i, j]\<close>
  and the accumulated duration of the range is at least \<^verbatim>\<open>minDuration\<close>.
\<close>

definition feasible :: "input \<Rightarrow> nat \<Rightarrow> nat \<Rightarrow> nat \<Rightarrow> bool" where
  "feasible inp r i j = (r < numRiders inp \<and> i \<le> j \<and> j < numTimeSlices inp
     \<and> (\<forall>t \<in> {i..j}. available inp ! t ! r)
     \<and> minDuration inp \<le> run_sum inp i (Suc j))"

definition feasible_set :: "input \<Rightarrow> (nat \<times> nat \<times> nat) set" where
  "feasible_set inp = {(r, i, j). feasible inp r i j}"

text \<open>
  \<open>candidate v r i j\<close>: \<open>v\<close> is the boolean variable \<^verbatim>\<open>a[r][i..j]\<close> carrying the
  triple as its auxiliary data. \<open>time_var inp v r\<close>: \<open>v\<close> is the continuous variable
  \<^verbatim>\<open>time[r]\<close>, bounded below by the guaranteed time and not above.
\<close>

definition candidate :: "AuxData Var \<Rightarrow> nat \<Rightarrow> nat \<Rightarrow> nat \<Rightarrow> bool" where
  "candidate v r i j = (Var.name v = candidate_name r i j
     \<and> auxData v = Some \<lparr>rider = r, t1 = i, t2 = j\<rparr> \<and> isBool v)"

definition time_var :: "input \<Rightarrow> AuxData Var \<Rightarrow> nat \<Rightarrow> bool" where
  "time_var inp v r = (Var.name v = time_name r \<and> auxData v = None \<and> isReal v
     \<and> Var.lowerBound v = Some (guaranteed inp ! r) \<and> Var.upperBound v = None)"

subsection \<open>Invariants of the loops of makeLP\<close>

text \<open>
  \<open>ok U c\<close>: the expression \<open>c\<close> satisfies the class invariant and mentions only
  variables of \<open>U\<close>. \<open>good inp U s\<close>: the tables of the local state keep their
  shapes, the names of \<open>U\<close> tell its variables apart, and every expression of the state
  is \<open>ok\<close>.
\<close>

definition ok :: "'t Var set \<Rightarrow> ('t, 'z) LinExpr_scheme \<Rightarrow> bool" where
  "ok U c = (wf_expr c \<and> vars c \<subseteq> U)"

definition oks :: "'t Var set \<Rightarrow> 't Constraint option list \<Rightarrow> bool" where
  "oks U row = (\<forall>c. Some c \<in> set row \<longrightarrow> ok U c)"

definition shaped :: "input \<Rightarrow> locals \<Rightarrow> bool" where
  "shaped inp s = (length (timeCounted s) = numRiders inp
     \<and> length (haveEnoughRiders s) = numTimeSlices inp
     \<and> fst ` set (haveEnoughRidersOfType s) = set (types inp)
     \<and> (\<forall>row \<in> snd ` set (haveEnoughRidersOfType s). length row = numTimeSlices inp)
     \<and> length (disjointAllocations s) = numRiders inp
     \<and> (\<forall>row \<in> set (disjointAllocations s). length row = numTimeSlices inp))"

definition good :: "input \<Rightarrow> AuxData Var set \<Rightarrow> locals \<Rightarrow> bool" where
  "good inp U s = (shaped inp s \<and> inj_on Var.name U \<and> (\<forall>v \<in> U. \<not> proto_member (Var.name v))
     \<and> ok U (objective s)
     \<and> (\<forall>c \<in> set (timeCounted s). ok U c)
     \<and> oks U (haveEnoughRiders s)
     \<and> (\<forall>row \<in> snd ` set (haveEnoughRidersOfType s). oks U row)
     \<and> (\<forall>row \<in> set (disjointAllocations s). oks U row))"

text \<open>
  The candidates that the three nested loops have passed when they stand at
  \<open>(r, i, j)\<close>, and the invariant that ties the state to such a set \<open>S\<close>.
\<close>

definition before :: "input \<Rightarrow> nat \<Rightarrow> nat \<Rightarrow> nat \<Rightarrow> (nat \<times> nat \<times> nat) set" where
  "before inp r i j =
     {(r', i', j'). feasible inp r' i' j' \<and> (r' < r \<or> r' = r \<and> (i' < i \<or> i' = i \<and> j' < j))}"

definition created :: "input \<Rightarrow> (nat \<times> nat \<times> nat) set \<Rightarrow> locals \<Rightarrow> bool" where
  "created inp S s = (good inp (vars (objective s)) s \<and> finite S \<and> timeCoefficient s = card S
     \<and> (\<forall>v \<in> vars (objective s). \<exists>(r, i, j) \<in> S. candidate v r i j \<and> coeff (objective s) v = Some 1)
     \<and> (\<forall>(r, i, j) \<in> S. \<exists>v \<in> vars (objective s). candidate v r i j))"

text \<open>
  The invariant of the second loop, after \<open>n\<close> riders, and what holds of the objective
  and the constraint list that \<^verbatim>\<open>makeLP\<close> hands to its closures: every variable is a
  candidate of a feasible triple, with coefficient 1 in the objective, or the time
  variable of a rider, with the number of candidates as its coefficient.
\<close>

definition timed :: "input \<Rightarrow> (nat \<times> nat \<times> nat) set \<Rightarrow> nat \<Rightarrow> locals \<Rightarrow> bool" where
  "timed inp S n s = (good inp (vars (objective s)) s \<and> timeCoefficient s = card S
     \<and> (\<forall>v \<in> vars (objective s).
           (\<exists>(r, i, j) \<in> S. candidate v r i j \<and> coeff (objective s) v = Some 1)
           \<or> (\<exists>r < n. time_var inp v r \<and> coeff (objective s) v = Some (real (card S))))
     \<and> (\<forall>(r, i, j) \<in> S. \<exists>v \<in> vars (objective s). candidate v r i j)
     \<and> (\<forall>r < n. \<exists>v \<in> vars (objective s). time_var inp v r))"

definition built :: "input \<Rightarrow> AuxData LinExpr \<Rightarrow> AuxData Constraint list \<Rightarrow> bool" where
  "built inp obj cs = (wf_expr obj \<and> inj_on Var.name (vars obj)
     \<and> (\<forall>c \<in> set cs. wf_expr c \<and> vars c \<subseteq> vars obj)
     \<and> (\<forall>v \<in> vars obj.
           (\<exists>(r, i, j) \<in> feasible_set inp. candidate v r i j \<and> coeff obj v = Some 1)
           \<or> (\<exists>r < numRiders inp. time_var inp v r
                 \<and> coeff obj v = Some (real (card (feasible_set inp)))))
     \<and> (\<forall>(r, i, j) \<in> feasible_set inp. \<exists>v \<in> vars obj. candidate v r i j)
     \<and> (\<forall>r < numRiders inp. \<exists>v \<in> vars obj. time_var inp v r))"

subsection \<open>The end-to-end example\<close>

text \<open>
  One slot of duration 1 with demand 1, one courier of type \<^verbatim>\<open>bike\<close> (demand by type
  0) who is available, guaranteed 0, \<^verbatim>\<open>minDuration\<close> 1; the two variables and the
  objective and constraints that \<^verbatim>\<open>makeLP\<close> builds for it.
\<close>

definition end_to_end :: input where
  "end_to_end = \<lparr>duration = [1], expected = [1], expectedOfType = [(''bike'', [0])],
     riderType = [''bike''], available = [[True]], guaranteed = [0], minDuration = 1\<rparr>"

definition a000 :: "AuxData Var" where
  "a000 = set_auxData (BoolVar 0 ''a[0][0..0]'') \<lparr>rider = 0, t1 = 0, t2 = 0\<rparr>"

definition time0 :: "AuxData Var" where
  "time0 = RealVar 1 ''time[0]'' (Some 0) None"

definition end_to_end_objective :: "AuxData LinExpr" where
  "end_to_end_objective = \<lparr>terms = [(''a[0][0..0]'', a000, 1), (''time[0]'', time0, 1)]\<rparr>"

definition end_to_end_constraints :: "AuxData Constraint list" where
  "end_to_end_constraints =
     [\<lparr>terms = [(''a[0][0..0]'', a000, - 1), (''time[0]'', time0, 1)],
       name = ''timeCounted[0]'', lowerBound = Some 0, upperBound = None\<rparr>,
      \<lparr>terms = [(''a[0][0..0]'', a000, 1)],
       name = ''enough[0]'', lowerBound = Some 1, upperBound = None\<rparr>,
      \<lparr>terms = [(''a[0][0..0]'', a000, 1)],
       name = ''disjoint[0][0]'', lowerBound = None, upperBound = Some 1\<rparr>]"

subsection \<open>An input on which the rounding decides\<close>

text \<open>
  One courier, available at both of two slots whose durations are the doubles \<open>1\<close>
  and \<open>3 / 2 ^ 54\<close>, and \<^verbatim>\<open>minDuration\<close> the double that follows 1. The durations add
  up to less than \<^verbatim>\<open>minDuration\<close>; the sum of doubles is rounded up to it.
\<close>

definition rounding_input :: input where
  "rounding_input = \<lparr>duration = [1, 3 / 2 ^ 54], expected = [0, 0],
     expectedOfType = [(''bike'', [0, 0])], riderType = [''bike''],
     available = [[True], [True]], guaranteed = [0], minDuration = 1 + 1 / 2 ^ 52\<rparr>"

definition a001 :: "AuxData Var" where
  "a001 = set_auxData (BoolVar 0 ''a[0][0..1]'') \<lparr>rider = 0, t1 = 0, t2 = 1\<rparr>"

definition rounding_objective :: "AuxData LinExpr" where
  "rounding_objective = \<lparr>terms = [(''a[0][0..1]'', a001, 1), (''time[0]'', time0, 1)]\<rparr>"

definition rounding_constraints :: "AuxData Constraint list" where
  "rounding_constraints =
     [\<lparr>terms = [(''a[0][0..1]'', a001, - (1 + 1 / 2 ^ 52)), (''time[0]'', time0, 1)],
       name = ''timeCounted[0]'', lowerBound = Some 0, upperBound = None\<rparr>,
      \<lparr>terms = [(''a[0][0..1]'', a001, 1)],
       name = ''disjoint[0][0]'', lowerBound = None, upperBound = Some 1\<rparr>,
      \<lparr>terms = [(''a[0][0..1]'', a001, 1)],
       name = ''disjoint[0][1]'', lowerBound = None, upperBound = Some 1\<rparr>]"

subsection \<open>The shape rules\<close>

text \<open>
  The rules in the words of the specification: consistent array lengths, durations
  \<open>\<ge> 0\<close>, demand in \<open>[0, R]\<close>, and an entry of the demand by type for every
  courier's type. The last rule is stated as the check can see it: a type also counts as
  having an entry when it is the name of an inherited member.
\<close>

definition shape_rules :: "input \<Rightarrow> bool" where
  "shape_rules inp = (length (duration inp) = numTimeSlices inp
     \<and> (\<forall>(type, xs) \<in> set (expectedOfType inp). length xs = numTimeSlices inp)
     \<and> length (riderType inp) = numRiders inp
     \<and> length (available inp) = numTimeSlices inp
     \<and> (\<forall>a \<in> set (available inp). length a = numRiders inp)
     \<and> (\<forall>d \<in> set (duration inp). 0 \<le> d)
     \<and> (\<forall>count \<in> set (expected inp). 0 \<le> count \<and> count \<le> real (numRiders inp))
     \<and> (\<forall>type \<in> set (riderType inp).
           type \<in> fst ` set (expectedOfType inp) \<or> proto_member type))"

text \<open>Inputs that break one rule each, and one whose courier type is an inherited name.\<close>

definition negative_duration :: input where
  "negative_duration = end_to_end\<lparr>duration := [- 1]\<rparr>"

definition excess_demand :: input where
  "excess_demand = end_to_end\<lparr>expected := [2]\<rparr>"

definition inherited_type :: input where
  "inherited_type = end_to_end\<lparr>riderType := [''constructor'']\<rparr>"

subsection \<open>Decoding\<close>

text \<open>
  \<open>covers v r t\<close>: \<open>v\<close> carries auxiliary data for rider \<open>r\<close> and a range that
  contains slot \<open>t\<close>. \<open>grid_shape R T g\<close>: \<open>g\<close> has \<open>R\<close> rows of \<open>T\<close> cells.
\<close>

definition covers :: "AuxData Var \<Rightarrow> nat \<Rightarrow> nat \<Rightarrow> bool" where
  "covers v r t = (case auxData v of None \<Rightarrow> False
                   | Some a \<Rightarrow> rider a = r \<and> t1 a \<le> t \<and> t \<le> t2 a)"

definition grid_shape :: "nat \<Rightarrow> nat \<Rightarrow> bool option list list \<Rightarrow> bool" where
  "grid_shape R T g = (length g = R \<and> list_all (\<lambda>row. length row = T) g)"

subsection \<open>What a linear program means\<close>

text \<open>
  The value of an expression under an assignment of the variables by name, when a
  constraint holds, when a variable lies in its domain, and the part of the objective
  that the candidate variables contribute.
\<close>

definition eval_expr :: "(string \<Rightarrow> real) \<Rightarrow> ('t, 'z) LinExpr_scheme \<Rightarrow> real" where
  "eval_expr val e = (\<Sum>(v, c) \<leftarrow> getVarCoefficients e. c * val (Var.name v))"

definition satisfied :: "(string \<Rightarrow> real) \<Rightarrow> 't Constraint \<Rightarrow> bool" where
  "satisfied val c =
     ((case lowerBound c of None \<Rightarrow> True | Some lo \<Rightarrow> lo \<le> eval_expr val c)
      \<and> (case upperBound c of None \<Rightarrow> True | Some up \<Rightarrow> eval_expr val c \<le> up))"

definition in_domain :: "(string \<Rightarrow> real) \<Rightarrow> 't Var \<Rightarrow> bool" where
  "in_domain val v =
     ((case Var.lowerBound v of None \<Rightarrow> True | Some lo \<Rightarrow> lo \<le> val (Var.name v))
      \<and> (case Var.upperBound v of None \<Rightarrow> True | Some up \<Rightarrow> val (Var.name v) \<le> up)
      \<and> (isReal v \<or> val (Var.name v) \<in> \<int>))"

definition achievable ::
  "(string \<Rightarrow> real) \<Rightarrow> 't LinExpr \<Rightarrow> 't Constraint list \<Rightarrow> bool" where
  "achievable val obj cs =
     (list_all (\<lambda>(v, c). in_domain val v) (getVarCoefficients obj) \<and> list_all (satisfied val) cs)"

definition candidate_sum :: "(string \<Rightarrow> real) \<Rightarrow> 't LinExpr \<Rightarrow> real" where
  "candidate_sum val obj =
     (\<Sum>(v, c) \<leftarrow> filter (\<lambda>(v, c). auxData v \<noteq> None) (getVarCoefficients obj).
        c * val (Var.name v))"

text \<open>An input without any candidate: the only courier is never available.\<close>

definition never_available :: input where
  "never_available = \<lparr>duration = [1], expected = [0], expectedOfType = [(''bike'', [0])],
     riderType = [''bike''], available = [[False]], guaranteed = [5], minDuration = 1\<rparr>"

subsection \<open>The LP text in the words of the specification\<close>

text \<open>
  A term is its coefficient and its name, with the coefficient left out when it is 1
  or -1. The first term of an expression has no \<open>+\<close> in front; a negative first term
  starts with \<open>-\<close> and a blank. Every further term follows after \<open>+\<close> or \<open>-\<close>
  between single blanks.
\<close>

definition spec_coeff :: "(real \<Rightarrow> string) \<Rightarrow> real \<Rightarrow> string" where
  "spec_coeff num c = (if \<bar>c\<bar> = 1 then [] else num \<bar>c\<bar> @ '' '')"

fun spec_rest :: "(real \<Rightarrow> string) \<Rightarrow> ('t Var \<times> real) list \<Rightarrow> string" where
  "spec_rest num [] = []"
| "spec_rest num ((v, c) # ts) =
     (if c < 0 then '' - '' else '' + '') @ spec_coeff num c @ Var.name v @ spec_rest num ts"

fun spec_terms :: "(real \<Rightarrow> string) \<Rightarrow> ('t Var \<times> real) list \<Rightarrow> string" where
  "spec_terms num [] = []"
| "spec_terms num ((v, c) # ts) =
     (if c < 0 then ''- '' else []) @ spec_coeff num c @ Var.name v @ spec_rest num ts"

text \<open>
  A constraint line \<^verbatim>\<open><name>: [<lower> <=] <terms> [<= <upper>];\<close> (the name and its
  colon are left out when the name is empty), the line that declares the bounds of a
  variable, and a declaration line \<^verbatim>\<open>bin <names>;\<close> or \<^verbatim>\<open>int <names>;\<close>, which is
  left out when there is no such variable.
\<close>

definition spec_bounded :: "(real \<Rightarrow> string) \<Rightarrow> real option \<Rightarrow> string \<Rightarrow> real option \<Rightarrow> string" where
  "spec_bounded num lo body up =
     (case lo of None \<Rightarrow> [] | Some l \<Rightarrow> num l @ '' <= '') @ body
     @ (case up of None \<Rightarrow> [] | Some u \<Rightarrow> '' <= '' @ num u)"

definition spec_line :: "(real \<Rightarrow> string) \<Rightarrow> 't Constraint \<Rightarrow> string" where
  "spec_line num c =
     (if name c = [] then [] else name c @ '': '')
     @ spec_bounded num (lowerBound c) (spec_terms num (getVarCoefficients c)) (upperBound c)
     @ '';\<newline>''"

definition spec_bound_line :: "(real \<Rightarrow> string) \<Rightarrow> 't Var \<Rightarrow> string" where
  "spec_bound_line num v =
     ''c['' @ Var.name v @ '']: ''
     @ spec_bounded num (Var.lowerBound v) (Var.name v) (Var.upperBound v) @ '';\<newline>''"

definition spec_decl :: "string \<Rightarrow> 't Var list \<Rightarrow> string" where
  "spec_decl kw vs = (if vs = [] then [] else kw @ '' '' @ join '', '' (map Var.name vs) @ '';\<newline>'')"

text \<open>
  The whole text, for the variables \<open>vs\<close> of the saturated objective: the
  \<^verbatim>\<open>minimize\<close> line, the bounds of the bounded variables that are not boolean, the
  constraints, an empty line, and the two declarations.
\<close>

definition spec_export ::
  "(real \<Rightarrow> string) \<Rightarrow> 't Var list \<Rightarrow> 't LinExpr \<Rightarrow> 't Constraint list \<Rightarrow> string" where
  "spec_export num vs obj cs =
     ''minimize: '' @ spec_terms num (getVarCoefficients obj) @ '';\<newline>''
     @ concat (map (spec_bound_line num) (filter (\<lambda>v. \<not> isBool v \<and> bounded v) vs))
     @ concat (map (spec_line num) cs)
     @ ''\<newline>''
     @ spec_decl ''bin'' (filter isBool vs) @ spec_decl ''int'' (filter isInt vs)"

text \<open>
  How the examples print a number: the decimal digits of a non-negative integer, which
  is what JavaScript prints for the integers 0, 1, 2 and so on.
\<close>

definition num_example :: "real \<Rightarrow> string" where
  "num_example x = show_nat (nat \<lfloor>x\<rfloor>)"

section \<open>Basic facts\<close>

subsection \<open>Rounding\<close>

text \<open>The quantum of a number whose binary exponent is known.\<close>

lemma quantum_eq:
  assumes "2 powi e \<le> \<bar>x\<bar>" "\<bar>x\<bar> < 2 powi (e + 1)" "- 1022 \<le> e"
  shows "quantum x = 2 powi (e - 52)"
proof -
  from assms(1) have pos: "0 < \<bar>x\<bar>"
    by (smt (verit) zero_less_power_int)
  have a: "(2::real) powr real_of_int e = 2 powi e"
    by (rule powr_real_of_int') simp_all
  have b: "(2::real) powr real_of_int (e + 1) = 2 powi (e + 1)"
    by (rule powr_real_of_int') simp_all
  have "2 powr real_of_int e \<le> \<bar>x\<bar> \<and> \<bar>x\<bar> < 2 powr (real_of_int e + 1)"
    using assms(1,2) a b by simp
  then have "\<lfloor>log 2 \<bar>x\<bar>\<rfloor> = e"
    using pos by (simp add: floor_log_eq_powr_iff)
  with assms(3) show ?thesis by (simp add: quantum_def max_def)
qed

lemma round_double_1: "round_double 1 = 1"
proof -
  have "quantum 1 = 2 powi (0 - 52)"
    by (rule quantum_eq) simp_all
  then have q: "quantum 1 = 1 / 2 ^ 52" by simp
  show ?thesis unfolding round_double_def q round_even_def Let_def by simp
qed

lemma dadd_0_1: "dadd 0 1 = 1"
  by (simp add: dadd_def round_double_1)

text \<open>\<open>1 + 3 / 2 ^ 54\<close> lies between the doubles \<open>1\<close> and \<open>1 + 1 / 2 ^ 52\<close>, nearer the second.\<close>

lemma round_double_up: "round_double (1 + 3 / 2 ^ 54) = 1 + 1 / 2 ^ 52"
proof -
  have "quantum (1 + 3 / 2 ^ 54) = 2 powi (0 - 52)"
    by (rule quantum_eq) simp_all
  then have q: "quantum (1 + 3 / 2 ^ 54) = 1 / 2 ^ 52" by simp
  have f: "\<lfloor>(1 + 3 / 2 ^ 54) / (1 / 2 ^ 52) :: real\<rfloor> = 2 ^ 52"
    by (simp add: floor_eq_iff)
  show ?thesis unfolding round_double_def q round_even_def Let_def f by simp
qed

text \<open>\<open>1 + 1 / 2 ^ 53\<close> lies halfway between \<open>1\<close> and \<open>1 + 1 / 2 ^ 52\<close>: the tie goes to 1.\<close>

lemma round_double_tie: "round_double (1 + 1 / 2 ^ 53) = 1"
proof -
  have "quantum (1 + 1 / 2 ^ 53) = 2 powi (0 - 52)"
    by (rule quantum_eq) simp_all
  then have q: "quantum (1 + 1 / 2 ^ 53) = 1 / 2 ^ 52" by simp
  have f: "\<lfloor>(1 + 1 / 2 ^ 53) / (1 / 2 ^ 52) :: real\<rfloor> = 2 ^ 52"
    by (simp add: floor_eq_iff)
  show ?thesis unfolding round_double_def q round_even_def Let_def f by simp
qed

text \<open>Rounding moves a number by half a quantum at most.\<close>

lemma round_even_near: "\<bar>real_of_int (round_even y) - y\<bar> \<le> 1 / 2"
  unfolding round_even_def Let_def by (simp add: abs_le_iff)

lemma quantum_pos: "0 < quantum x"
  by (simp add: quantum_def)

lemma round_double_near: "\<bar>round_double x - x\<bar> \<le> quantum x / 2"
proof (cases "x = 0")
  case True
  then show ?thesis using quantum_pos [of 0] by (simp add: round_double_def)
next
  case False
  let ?q = "quantum x"
  have "\<bar>real_of_int (round_even (x / ?q)) - x / ?q\<bar> * ?q \<le> 1 / 2 * ?q"
    using round_even_near [of "x / ?q"] quantum_pos [of x] by (simp add: mult_right_mono)
  moreover have "(real_of_int (round_even (x / ?q)) - x / ?q) * ?q
      = real_of_int (round_even (x / ?q)) * ?q - x"
    using quantum_pos [of x] by (simp add: left_diff_distrib)
  then have "\<bar>real_of_int (round_even (x / ?q)) - x / ?q\<bar> * ?q
      = \<bar>real_of_int (round_even (x / ?q)) * ?q - x\<bar>"
    using quantum_pos [of x] abs_mult [of "real_of_int (round_even (x / ?q)) - x / ?q" ?q]
    by simp
  ultimately show ?thesis using False by (simp add: round_double_def)
qed

lemma round_double_small: "round_double (3 / 2 ^ 54) = 3 / 2 ^ 54"
proof -
  have "quantum (3 / 2 ^ 54) = 2 powi (- 53 - 52)"
    by (rule quantum_eq) simp_all
  then have q: "quantum (3 / 2 ^ 54) = 1 / 2 ^ 105" by simp
  have f: "\<lfloor>(3 / 2 ^ 54) / (1 / 2 ^ 105) :: real\<rfloor> = 3 * 2 ^ 51"
    by (simp add: floor_eq_iff)
  show ?thesis unfolding round_double_def q round_even_def Let_def f by simp
qed

lemma and_then_Inr: "and_then (Inr x) f = f x"
  by (simp add: and_then_def)

subsection \<open>Names of variables\<close>

lemma is_digit_digit: "d < 10 \<Longrightarrow> is_digit (digit d)"
  by (simp add: is_digit_def digit_def)

lemma digit_inj: "d < 10 \<Longrightarrow> d' < 10 \<Longrightarrow> digit d = digit d' \<Longrightarrow> d = d'"
proof -
  assume a: "d < 10" "d' < 10" "digit d = digit d'"
  then have "(of_char (digit d) :: nat) = of_char (digit d')" by simp
  with a show ?thesis by (simp add: digit_def)
qed

lemma show_nat_digits: "c \<in> set (show_nat n) \<Longrightarrow> is_digit c"
proof (induction n rule: show_nat.induct)
  case (1 n)
  show ?case
  proof (cases "n < 10")
    case True
    with "1.prems" show ?thesis
      by (simp add: show_nat.simps [of n] is_digit_digit)
  next
    case False
    with "1.prems" "1.IH" show ?thesis
      by (auto simp: show_nat.simps [of n] is_digit_digit)
  qed
qed

lemma show_nat_nonempty: "show_nat n \<noteq> []" "[] \<noteq> show_nat n"
  by (subst show_nat.simps, simp)+

lemma show_nat_inj: "show_nat n = show_nat m \<Longrightarrow> n = m"
proof (induction n arbitrary: m rule: show_nat.induct)
  case (1 n)
  show ?case
  proof (cases "n < 10")
    case n: True
    show ?thesis
    proof (cases "m < 10")
      case True
      with n "1.prems" show ?thesis
        by (simp add: show_nat.simps [of n] show_nat.simps [of m] digit_inj)
    next
      case False
      with n "1.prems" show ?thesis
        by (simp add: show_nat.simps [of n] show_nat.simps [of m] show_nat_nonempty)
    qed
  next
    case n: False
    show ?thesis
    proof (cases "m < 10")
      case True
      with n "1.prems" show ?thesis
        by (simp add: show_nat.simps [of n] show_nat.simps [of m] show_nat_nonempty)
    next
      case False
      with n "1.prems" have e: "show_nat (n div 10) = show_nat (m div 10)"
        and d: "digit (n mod 10) = digit (m mod 10)"
        by (simp_all add: show_nat.simps [of n] show_nat.simps [of m])
      from "1.IH" [OF n e] have "n div 10 = m div 10" .
      moreover from d have "n mod 10 = m mod 10"
        by (rule digit_inj [rotated 2]) simp_all
      ultimately show ?thesis
        by (metis div_mult_mod_eq)
    qed
  qed
qed

lemma split_at_sep:
  "c \<notin> set xs \<Longrightarrow> c \<notin> set xs' \<Longrightarrow> xs @ c # ys = xs' @ c # ys' \<Longrightarrow> xs = xs' \<and> ys = ys'"
proof (induction xs arbitrary: xs')
  case Nil
  then show ?case by (cases xs') auto
next
  case (Cons x xs)
  then show ?case by (cases xs') auto
qed

lemma not_digit_bracket: "\<not> is_digit CHR '']''" "\<not> is_digit CHR ''.''"
  by (simp_all add: is_digit_def)

lemma sep_notin_show_nat: "CHR '']'' \<notin> set (show_nat n)" "CHR ''.'' \<notin> set (show_nat n)"
  using show_nat_digits not_digit_bracket by blast+

lemma candidate_name_inj:
  assumes "candidate_name r i j = candidate_name r' i' j'"
  shows "r = r' \<and> i = i' \<and> j = j'"
proof -
  from assms have "show_nat r @ CHR '']'' # (CHR ''['' # show_nat i @ ''..'' @ show_nat j @ '']'')
      = show_nat r' @ CHR '']'' # (CHR ''['' # show_nat i' @ ''..'' @ show_nat j' @ '']'')"
    by (simp add: candidate_name_def)
  from split_at_sep [OF sep_notin_show_nat(1) sep_notin_show_nat(1) this]
  have r: "show_nat r = show_nat r'"
    and "show_nat i @ CHR ''.'' # (CHR ''.'' # show_nat j @ '']'')
      = show_nat i' @ CHR ''.'' # (CHR ''.'' # show_nat j' @ '']'')"
    by simp_all
  from split_at_sep [OF sep_notin_show_nat(2) sep_notin_show_nat(2) this(2)]
  have i: "show_nat i = show_nat i'" and j: "show_nat j = show_nat j'"
    by simp_all
  from r i j show ?thesis by (simp add: show_nat_inj)
qed

lemma time_name_inj: "time_name r = time_name r' \<Longrightarrow> r = r'"
  by (simp add: time_name_def show_nat_inj)

lemma candidate_not_time: "candidate_name r i j \<noteq> time_name r'"
  by (simp add: candidate_name_def time_name_def)

lemma proto_member_hd: "proto_member k \<Longrightarrow> hd k \<in> set ''chiptv_''"
  by (auto simp: proto_member_def)

lemma candidate_name_not_proto: "\<not> proto_member (candidate_name r i j)"
  by (auto simp: candidate_name_def dest: proto_member_hd)

lemma time_name_not_proto: "\<not> proto_member (time_name r)"
  by (auto simp: time_name_def proto_member_def)

lemma array_index_hd: "is_array_index k \<Longrightarrow> is_digit (hd k)"
  by (cases k) (auto simp: is_array_index_def)

lemma candidate_name_not_index: "\<not> is_array_index (candidate_name r i j)"
  by (auto simp: candidate_name_def is_digit_def dest!: array_index_hd)

lemma time_name_not_index: "\<not> is_array_index (time_name r)"
  by (auto simp: time_name_def is_digit_def dest!: array_index_hd)

subsection \<open>Tables and the invariant of LinExpr\<close>

lemma Object_keys_set: "set (Object_keys obj) = fst ` set obj"
  by (auto simp: Object_keys_def)

lemma Object_keys_distinct: "distinct (map fst obj) \<Longrightarrow> distinct (Object_keys obj)"
  by (auto simp: Object_keys_def distinct_map_filter)

lemma Object_keys_plain:
  "(\<And>k. k \<in> fst ` set obj \<Longrightarrow> \<not> is_array_index k) \<Longrightarrow> Object_keys obj = map fst obj"
proof -
  assume a: "\<And>k. k \<in> fst ` set obj \<Longrightarrow> \<not> is_array_index k"
  then have "filter is_array_index (map fst obj) = []"
    by (auto simp: filter_empty_conv)
  moreover from a have "filter (\<lambda>k. \<not> is_array_index k) (map fst obj) = map fst obj"
    by (auto simp: filter_id_conv)
  ultimately show ?thesis by (simp add: Object_keys_def)
qed

lemma set_getVarCoefficients:
  "distinct (map fst (terms e)) \<Longrightarrow> set (getVarCoefficients e) = snd ` set (terms e)"
proof -
  assume d: "distinct (map fst (terms e))"
  have "set (getVarCoefficients e) = (\<lambda>k. the (map_of (terms e) k)) ` fst ` set (terms e)"
    by (simp add: getVarCoefficients_def Object_keys_set)
  also have "\<dots> = snd ` set (terms e)"
  proof (intro set_eqI iffI)
    fix x assume "x \<in> (\<lambda>k. the (map_of (terms e) k)) ` fst ` set (terms e)"
    then obtain k y where ky: "(k, y) \<in> set (terms e)" and x: "x = the (map_of (terms e) k)"
      by auto
    from d ky have "map_of (terms e) k = Some y" by simp
    with x ky show "x \<in> snd ` set (terms e)" by force
  next
    fix x assume "x \<in> snd ` set (terms e)"
    then obtain k where ky: "(k, x) \<in> set (terms e)" by auto
    with d have "map_of (terms e) k = Some x" by simp
    with ky show "x \<in> (\<lambda>k. the (map_of (terms e) k)) ` fst ` set (terms e)"
      by force
  qed
  finally show ?thesis .
qed

lemma wf_exprD:
  assumes "wf_expr e" "(k, v, c) \<in> set (terms e)"
  shows "k = Var.name v" "\<not> proto_member k" "map_of (terms e) k = Some (v, c)"
  using assms by (auto simp: wf_expr_def list_all_iff)

lemma wf_distinct: "wf_expr e \<Longrightarrow> distinct (map fst (terms e))"
  by (simp add: wf_expr_def)

lemma vars_terms: "wf_expr e \<Longrightarrow> vars e = (fst \<circ> snd) ` set (terms e)"
  by (simp add: vars_def set_getVarCoefficients wf_distinct image_image)

lemma in_varsE:
  assumes "wf_expr e" "v \<in> vars e"
  obtains c where "(Var.name v, v, c) \<in> set (terms e)" "map_of (terms e) (Var.name v) = Some (v, c)"
proof -
  from assms obtain k c where kc: "(k, v, c) \<in> set (terms e)"
    by (force simp: vars_terms)
  with assms(1) have "k = Var.name v" "map_of (terms e) k = Some (v, c)"
    by (auto dest: wf_exprD)
  with kc that show thesis by blast
qed

lemma in_varsI: "wf_expr e \<Longrightarrow> (k, v, c) \<in> set (terms e) \<Longrightarrow> v \<in> vars e"
  by (force simp: vars_terms)

lemma map_of_vars:
  "wf_expr e \<Longrightarrow> map_of (terms e) k = Some (w, c) \<Longrightarrow> w \<in> vars e \<and> Var.name w = k"
  by (auto dest!: map_of_SomeD dest: wf_exprD in_varsI)

lemma new_LinExpr_wf: "wf_expr new_LinExpr"
  by (simp add: wf_expr_def new_LinExpr_def)

lemma new_LinExpr_vars: "vars new_LinExpr = {}"
  by (simp add: vars_def getVarCoefficients_def new_LinExpr_def Object_keys_def)

lemma new_Constraint_wf: "wf_expr (new_Constraint n lo up)"
  by (simp add: wf_expr_def new_Constraint_def)

lemma new_Constraint_vars: "vars (new_Constraint n lo up) = {}"
  by (simp add: vars_def getVarCoefficients_def new_Constraint_def Object_keys_def)

text \<open>When \<^verbatim>\<open>setCoefficient\<close> succeeds and when it throws.\<close>

lemma checkVar_ok:
  assumes "wf_expr e" "\<not> proto_member (Var.name v)"
    and "\<And>w. w \<in> vars e \<Longrightarrow> Var.name w = Var.name v \<Longrightarrow> w = v"
  shows "checkVar e v = Inr ()"
proof (cases "map_of (terms e) (Var.name v)")
  case None
  with assms(2) show ?thesis by (simp add: checkVar_def)
next
  case (Some p)
  obtain w c where p: "p = (w, c)" by (cases p)
  from map_of_vars [OF assms(1) Some [unfolded p]] assms(3) have "w = v" by blast
  with Some p show ?thesis by (simp add: checkVar_def)
qed

lemma setCoefficient_ok:
  assumes "wf_expr e" "\<not> proto_member (Var.name v)"
    and "\<And>w. w \<in> vars e \<Longrightarrow> Var.name w = Var.name v \<Longrightarrow> w = v"
  shows "setCoefficient e v n = Inr (e\<lparr>terms := AList.update (Var.name v) (v, n) (terms e)\<rparr>)"
  by (simp add: setCoefficient_def checkVar_ok [OF assms] and_then_Inr)

lemma setCoefficient_clash:
  assumes "wf_expr e" "w \<in> vars e" "Var.name w = Var.name v" "w \<noteq> v"
  shows "setCoefficient e v n = Inl (Error (''Mismatching variable named '' @ Var.name v))"
proof -
  from assms(1,2) obtain c where "map_of (terms e) (Var.name w) = Some (w, c)"
    by (rule in_varsE)
  with assms(3,4) show ?thesis
    by (simp add: setCoefficient_def checkVar_def and_then_def)
qed

lemma setCoefficient_proto:
  assumes "map_of (terms e) (Var.name v) = None" "proto_member (Var.name v)"
  shows "setCoefficient e v n = Inl (Error (''Mismatching variable named '' @ Var.name v))"
  using assms by (simp add: setCoefficient_def checkVar_def and_then_def)

lemma setCoefficient_InrD:
  "setCoefficient e v n = Inr e' \<Longrightarrow> e' = e\<lparr>terms := AList.update (Var.name v) (v, n) (terms e)\<rparr>"
  by (auto simp: setCoefficient_def and_then_def split: sum.splits)

lemma set_update_subset: "set (AList.update k v al) \<subseteq> insert (k, v) (set al)"
  by (induction al) auto

lemma set_update_distinct:
  "distinct (map fst al) \<Longrightarrow> set (AList.update k v al) = insert (k, v) {p \<in> set al. fst p \<noteq> k}"
  by (induction al) (auto simp: rev_image_eqI)

lemma wf_update:
  assumes "wf_expr e" "\<not> proto_member (Var.name v)"
  shows "wf_expr (e\<lparr>terms := AList.update (Var.name v) (v, n) (terms e)\<rparr>)"
proof -
  have "list_all (\<lambda>(k, v, c). k = Var.name v \<and> \<not> proto_member k)
          (AList.update (Var.name v) (v, n) (terms e))"
    using assms set_update_subset [of "Var.name v" "(v, n)" "terms e"]
    by (auto simp: wf_expr_def list_all_iff)
  with assms show ?thesis
    by (simp add: wf_expr_def AList.distinct_update)
qed

lemma vars_update:
  assumes "wf_expr e" "\<not> proto_member (Var.name v)"
    and "\<And>w. w \<in> vars e \<Longrightarrow> Var.name w = Var.name v \<Longrightarrow> w = v"
  shows "vars (e\<lparr>terms := AList.update (Var.name v) (v, n) (terms e)\<rparr>) = insert v (vars e)"
proof -
  let ?e' = "e\<lparr>terms := AList.update (Var.name v) (v, n) (terms e)\<rparr>"
  have wf': "wf_expr ?e'" using assms(1,2) by (rule wf_update)
  have "vars ?e' = (fst \<circ> snd) ` insert (Var.name v, v, n) {p \<in> set (terms e). fst p \<noteq> Var.name v}"
    by (simp add: vars_terms [OF wf'] set_update_distinct [OF wf_distinct [OF assms(1)]])
  also have "\<dots> = insert v (vars e)"
  proof (intro set_eqI iffI)
    fix x assume "x \<in> (fst \<circ> snd) ` insert (Var.name v, v, n) {p \<in> set (terms e). fst p \<noteq> Var.name v}"
    then show "x \<in> insert v (vars e)"
      by (auto simp: vars_terms [OF assms(1)] intro: rev_image_eqI)
  next
    fix x assume x: "x \<in> insert v (vars e)"
    show "x \<in> (fst \<circ> snd) ` insert (Var.name v, v, n) {p \<in> set (terms e). fst p \<noteq> Var.name v}"
    proof (cases "x = v")
      case True
      then show ?thesis by simp
    next
      case False
      with x have xv: "x \<in> vars e" by simp
      with assms(1) obtain c where c: "(Var.name x, x, c) \<in> set (terms e)"
        by (rule in_varsE)
      from assms(3) [OF xv] False have "Var.name x \<noteq> Var.name v" by blast
      with c show ?thesis by force
    qed
  qed
  finally show ?thesis .
qed

lemma coeff_update:
  "coeff (e\<lparr>terms := AList.update (Var.name v) (v, n) (terms e)\<rparr>) w =
     (if Var.name w = Var.name v then Some n else coeff e w)"
  by (simp add: coeff_def AList.update_conv')

lemma setCoefficient_wf:
  assumes "wf_expr e" "setCoefficient e v n = Inr e'"
  shows "wf_expr e'"
proof -
  have np: "\<not> proto_member (Var.name v)"
  proof (cases "map_of (terms e) (Var.name v)")
    case None
    with assms(2) show ?thesis
      by (auto simp: setCoefficient_def checkVar_def and_then_def split: if_splits)
  next
    case (Some p)
    then have "(Var.name v, p) \<in> set (terms e)" by (rule map_of_SomeD)
    with assms(1) show ?thesis by (cases p) (auto dest: wf_exprD)
  qed
  from setCoefficient_InrD [OF assms(2)] wf_update [OF assms(1) np] show ?thesis by simp
qed

text \<open>
  Setting a coefficient twice: the second value replaces the first, it is not added to
  it.
\<close>

lemma setCoefficient_twice:
  assumes "wf_expr e" "\<not> proto_member (Var.name v)"
    and "\<And>w. w \<in> vars e \<Longrightarrow> Var.name w = Var.name v \<Longrightarrow> w = v"
  shows "\<exists>e1 e2. setCoefficient e v c1 = Inr e1 \<and> setCoefficient e1 v c2 = Inr e2
           \<and> coeff e2 v = Some c2 \<and> vars e2 = insert v (vars e)"
proof -
  let ?e1 = "e\<lparr>terms := AList.update (Var.name v) (v, c1) (terms e)\<rparr>"
  let ?e2 = "?e1\<lparr>terms := AList.update (Var.name v) (v, c2) (terms ?e1)\<rparr>"
  have s1: "setCoefficient e v c1 = Inr ?e1" using assms by (rule setCoefficient_ok)
  have wf1: "wf_expr ?e1" using assms(1,2) by (rule wf_update)
  have v1: "vars ?e1 = insert v (vars e)" using assms by (rule vars_update)
  have clash1: "\<And>w. w \<in> vars ?e1 \<Longrightarrow> Var.name w = Var.name v \<Longrightarrow> w = v"
    unfolding v1 using assms(3) by auto
  have s2: "setCoefficient ?e1 v c2 = Inr ?e2" using wf1 assms(2) clash1 by (rule setCoefficient_ok)
  have v2: "vars ?e2 = insert v (vars ?e1)" using wf1 assms(2) clash1 by (rule vars_update)
  have "coeff ?e2 v = Some c2" by (simp add: coeff_update)
  with s1 s2 v1 v2 show ?thesis by auto
qed

text \<open>\<^verbatim>\<open>getCoefficient\<close> reads the stored coefficient, after the same check.\<close>

lemma getCoefficient_coeff:
  assumes "wf_expr e" "\<not> proto_member (Var.name v)"
    and "\<And>w. w \<in> vars e \<Longrightarrow> Var.name w = Var.name v \<Longrightarrow> w = v"
  shows "getCoefficient e v = Inr (coeff e v)"
  by (simp add: getCoefficient_def checkVar_ok [OF assms] and_then_Inr coeff_def)

lemma getVarCoefficients_props:
  assumes "wf_expr e"
  shows "fst ` set (getVarCoefficients e) = vars e"
    and "distinct (map (\<lambda>p. Var.name (fst p)) (getVarCoefficients e))"
    and "\<And>v c. (v, c) \<in> set (getVarCoefficients e) \<Longrightarrow> \<not> proto_member (Var.name v)"
    and "\<And>v c. (v, c) \<in> set (getVarCoefficients e) \<Longrightarrow> coeff e v = Some c"
proof -
  show "fst ` set (getVarCoefficients e) = vars e" by (simp add: vars_def)
  have eq: "map (\<lambda>p. Var.name (fst p)) (getVarCoefficients e) = Object_keys (terms e)"
  proof -
    have "\<And>k. k \<in> set (Object_keys (terms e)) \<Longrightarrow> Var.name (fst (the (map_of (terms e) k))) = k"
    proof -
      fix k assume "k \<in> set (Object_keys (terms e))"
      then obtain v c where kv: "(k, v, c) \<in> set (terms e)"
        by (auto simp: Object_keys_set)
      from wf_exprD [OF assms kv] show "Var.name (fst (the (map_of (terms e) k))) = k"
        by simp
    qed
    then show ?thesis
      by (simp add: getVarCoefficients_def map_idI)
  qed
  show "distinct (map (\<lambda>p. Var.name (fst p)) (getVarCoefficients e))"
    unfolding eq using assms by (simp add: Object_keys_distinct wf_distinct)
  fix v c assume "(v, c) \<in> set (getVarCoefficients e)"
  then obtain k where k: "(k, v, c) \<in> set (terms e)"
    by (auto simp: set_getVarCoefficients [OF wf_distinct [OF assms]])
  from wf_exprD [OF assms k] show "\<not> proto_member (Var.name v)" "coeff e v = Some c"
    by (simp_all add: coeff_def)
qed

lemma vars_not_proto: "wf_expr e \<Longrightarrow> v \<in> vars e \<Longrightarrow> \<not> proto_member (Var.name v)"
  by (auto simp: vars_def dest: getVarCoefficients_props(3))

lemma vars_coeff: "wf_expr e \<Longrightarrow> v \<in> vars e \<Longrightarrow> \<exists>c. coeff e v = Some c"
  by (auto simp: vars_def dest: getVarCoefficients_props(4))

text \<open>Writing a list of terms one after the other, as the loops of \<^verbatim>\<open>saturate\<close> and
  \<^verbatim>\<open>minimize\<close> do.\<close>

lemma foldM_setCoefficient:
  assumes "wf_expr e" "distinct (map (\<lambda>p. Var.name (fst p)) xs)"
    and "inj_on Var.name (vars e \<union> fst ` set xs)"
    and "\<forall>p \<in> set xs. \<not> proto_member (Var.name (fst p))"
  shows "\<exists>e'. foldM (\<lambda>(v, c) e. setCoefficient e v (g v c)) xs e = Inr e' \<and> wf_expr e'
           \<and> vars e' = vars e \<union> fst ` set xs
           \<and> (\<forall>(v, c) \<in> set xs. coeff e' v = Some (g v c))
           \<and> (\<forall>w. Var.name w \<notin> (\<lambda>p. Var.name (fst p)) ` set xs \<longrightarrow> coeff e' w = coeff e w)"
  using assms
proof (induction xs arbitrary: e)
  case Nil
  then show ?case by simp
next
  case (Cons x xs)
  obtain v c where x: "x = (v, c)" by (cases x)
  let ?e1 = "e\<lparr>terms := AList.update (Var.name v) (v, g v c) (terms e)\<rparr>"
  have np: "\<not> proto_member (Var.name v)" using Cons.prems(4) x by simp
  have clash: "\<And>w. w \<in> vars e \<Longrightarrow> Var.name w = Var.name v \<Longrightarrow> w = v"
    using Cons.prems(3) x by (auto simp: inj_on_def)
  have step: "setCoefficient e v (g v c) = Inr ?e1"
    using Cons.prems(1) np clash by (rule setCoefficient_ok)
  have wf1: "wf_expr ?e1" using Cons.prems(1) np by (rule wf_update)
  have vars1: "vars ?e1 = insert v (vars e)"
    using Cons.prems(1) np clash by (rule vars_update)
  have inj1: "inj_on Var.name (vars ?e1 \<union> fst ` set xs)"
    using Cons.prems(3) x by (simp add: vars1 insert_commute Un_commute)
  have d1: "distinct (map (\<lambda>p. Var.name (fst p)) xs)" using Cons.prems(2) by simp
  have np1: "\<forall>p \<in> set xs. \<not> proto_member (Var.name (fst p))"
    using Cons.prems(4) by simp
  from Cons.IH [OF wf1 d1 inj1 np1]
  obtain e' where e': "foldM (\<lambda>(v, c) e. setCoefficient e v (g v c)) xs ?e1 = Inr e'"
      "wf_expr e'" "vars e' = vars ?e1 \<union> fst ` set xs"
      "\<forall>(v, c) \<in> set xs. coeff e' v = Some (g v c)"
      "\<forall>w. Var.name w \<notin> (\<lambda>p. Var.name (fst p)) ` set xs \<longrightarrow> coeff e' w = coeff ?e1 w"
    by blast
  have nv: "Var.name v \<notin> (\<lambda>p. Var.name (fst p)) ` set xs"
    using Cons.prems(2) x by auto
  have "foldM (\<lambda>(v, c) e. setCoefficient e v (g v c)) (x # xs) e = Inr e'"
    by (simp add: x step and_then_Inr e'(1))
  moreover have "vars e' = vars e \<union> fst ` set (x # xs)"
    by (simp add: e'(3) vars1 x)
  moreover have "\<forall>(v, c) \<in> set (x # xs). coeff e' v = Some (g v c)"
    using e'(4,5) nv by (auto simp: x coeff_update)
  moreover have "\<forall>w. Var.name w \<notin> (\<lambda>p. Var.name (fst p)) ` set (x # xs) \<longrightarrow> coeff e' w = coeff e w"
    using e'(5) by (auto simp: x coeff_update)
  ultimately show ?case using e'(2) by blast
qed

lemma saturate_constraints:
  assumes "\<forall>c \<in> set cs. wf_expr c" "wf_expr e"
    and "inj_on Var.name (vars e \<union> (\<Union>c \<in> set cs. vars c))"
    and "\<forall>w \<in> vars e. coeff e w = Some 0"
  shows "\<exists>e'. foldM (\<lambda>constraint. foldM (\<lambda>(v, _) e. setCoefficient e v 0)
                        (getVarCoefficients constraint)) cs e = Inr e'
           \<and> wf_expr e' \<and> vars e' = vars e \<union> (\<Union>c \<in> set cs. vars c)
           \<and> (\<forall>w \<in> vars e'. coeff e' w = Some 0)"
  using assms
proof (induction cs arbitrary: e)
  case Nil
  then show ?case by simp
next
  case (Cons c cs)
  let ?xs = "getVarCoefficients c"
  have wfc: "wf_expr c" using Cons.prems(1) by simp
  have xs: "fst ` set ?xs = vars c" by (rule getVarCoefficients_props(1) [OF wfc])
  have inj: "inj_on Var.name (vars e \<union> fst ` set ?xs)"
    using Cons.prems(3) unfolding xs by (rule inj_on_subset) auto
  have np: "\<forall>p \<in> set ?xs. \<not> proto_member (Var.name (fst p))"
    using getVarCoefficients_props(3) [OF wfc] by auto
  from foldM_setCoefficient [OF Cons.prems(2) getVarCoefficients_props(2) [OF wfc] inj np,
      where g = "\<lambda>_ _. 0"]
  obtain e1 where e1: "foldM (\<lambda>(v, _) e. setCoefficient e v 0) ?xs e = Inr e1" "wf_expr e1"
      "vars e1 = vars e \<union> vars c"
      "\<forall>(v, c) \<in> set ?xs. coeff e1 v = Some 0"
      "\<forall>w. Var.name w \<notin> (\<lambda>p. Var.name (fst p)) ` set ?xs \<longrightarrow> coeff e1 w = coeff e w"
    unfolding xs by blast
  have zero1: "\<forall>w \<in> vars e1. coeff e1 w = Some 0"
  proof
    fix w assume w: "w \<in> vars e1"
    show "coeff e1 w = Some 0"
    proof (cases "Var.name w \<in> (\<lambda>p. Var.name (fst p)) ` set ?xs")
      case True
      then obtain v k where vk: "(v, k) \<in> set ?xs" and n: "Var.name w = Var.name v"
        by auto
      from vk have "v \<in> vars c" unfolding xs [symmetric] by force
      with w e1(3) have "w \<in> vars e \<union> (\<Union>c \<in> set (c # cs). vars c)"
        and "v \<in> vars e \<union> (\<Union>c \<in> set (c # cs). vars c)" by auto
      from inj_onD [OF Cons.prems(3) n this] have "w = v" .
      with vk e1(4) show ?thesis by auto
    next
      case False
      with e1(5) have eq: "coeff e1 w = coeff e w" by simp
      from False have "w \<notin> vars c" unfolding xs [symmetric] by force
      with w e1(3) Cons.prems(4) eq show ?thesis by auto
    qed
  qed
  have inj1: "inj_on Var.name (vars e1 \<union> (\<Union>c \<in> set cs. vars c))"
    using Cons.prems(3) unfolding e1(3) by (rule inj_on_subset) auto
  have wfcs: "\<forall>c \<in> set cs. wf_expr c" using Cons.prems(1) by simp
  have un: "vars e1 \<union> (\<Union>c \<in> set cs. vars c) = vars e \<union> (\<Union>c \<in> set (c # cs). vars c)"
    unfolding e1(3) by auto
  from Cons.IH [OF wfcs e1(2) inj1 zero1] show ?case
    unfolding un by (simp add: e1(1) and_then_Inr)
qed

lemma saturate_result:
  assumes "wf_expr obj" "\<forall>c \<in> set cs. wf_expr c"
    and "inj_on Var.name (vars obj \<union> (\<Union>c \<in> set cs. vars c))"
  shows "\<exists>s. saturate obj cs = Inr s \<and> wf_expr s
           \<and> vars s = (\<Union>c \<in> set cs. vars c) \<union> vars obj
           \<and> (\<forall>v \<in> vars obj. coeff s v = coeff obj v)
           \<and> (\<forall>v \<in> (\<Union>c \<in> set cs. vars c) - vars obj. coeff s v = Some 0)"
proof -
  have inj0: "inj_on Var.name (vars (new_LinExpr :: 'a LinExpr) \<union> (\<Union>c \<in> set cs. vars c))"
    using assms(3) unfolding new_LinExpr_vars by (rule inj_on_subset) auto
  from saturate_constraints [OF assms(2) new_LinExpr_wf inj0]
  obtain e1 where e1: "foldM (\<lambda>constraint. foldM (\<lambda>(v, _) e. setCoefficient e v 0)
        (getVarCoefficients constraint)) cs new_LinExpr = Inr e1" "wf_expr e1"
      "vars e1 = (\<Union>c \<in> set cs. vars c)" "\<forall>w \<in> vars e1. coeff e1 w = Some 0"
    unfolding new_LinExpr_vars by auto
  let ?xs = "getVarCoefficients obj"
  have xs: "fst ` set ?xs = vars obj" by (rule getVarCoefficients_props(1) [OF assms(1)])
  have inj: "inj_on Var.name (vars e1 \<union> fst ` set ?xs)"
    using assms(3) unfolding xs e1(3) by (simp add: Un_commute)
  have np: "\<forall>p \<in> set ?xs. \<not> proto_member (Var.name (fst p))"
    using getVarCoefficients_props(3) [OF assms(1)] by auto
  from foldM_setCoefficient [OF e1(2) getVarCoefficients_props(2) [OF assms(1)] inj np,
      where g = "\<lambda>_ c. c"]
  obtain s where s: "foldM (\<lambda>(v, c) e. setCoefficient e v c) ?xs e1 = Inr s" "wf_expr s"
      "vars s = vars e1 \<union> vars obj"
      "\<forall>(v, c) \<in> set ?xs. coeff s v = Some c"
      "\<forall>w. Var.name w \<notin> (\<lambda>p. Var.name (fst p)) ` set ?xs \<longrightarrow> coeff s w = coeff e1 w"
    unfolding xs by blast
  have "saturate obj cs = Inr s"
    by (simp add: saturate_def e1(1) and_then_Inr s(1))
  moreover have "\<forall>v \<in> vars obj. coeff s v = coeff obj v"
  proof
    fix v assume "v \<in> vars obj"
    then obtain c where c: "(v, c) \<in> set ?xs" unfolding xs [symmetric] by auto
    with s(4) getVarCoefficients_props(4) [OF assms(1) c] show "coeff s v = coeff obj v"
      by auto
  qed
  moreover have "\<forall>v \<in> (\<Union>c \<in> set cs. vars c) - vars obj. coeff s v = Some 0"
  proof
    fix v assume v: "v \<in> (\<Union>c \<in> set cs. vars c) - vars obj"
    have "Var.name v \<notin> (\<lambda>p. Var.name (fst p)) ` set ?xs"
    proof
      assume "Var.name v \<in> (\<lambda>p. Var.name (fst p)) ` set ?xs"
      then obtain w k where wk: "(w, k) \<in> set ?xs" and n: "Var.name v = Var.name w"
        by auto
      from wk have w: "w \<in> vars obj" unfolding xs [symmetric] by force
      then have "w \<in> vars obj \<union> (\<Union>c \<in> set cs. vars c)" by simp
      moreover from v have "v \<in> vars obj \<union> (\<Union>c \<in> set cs. vars c)" by simp
      ultimately have "v = w" using n assms(3) by (meson inj_onD)
      with v w show False by simp
    qed
    with s(5) have "coeff s v = coeff e1 v" by simp
    with v e1(3,4) show "coeff s v = Some 0" by auto
  qed
  moreover have "vars s = (\<Union>c \<in> set cs. vars c) \<union> vars obj"
    unfolding s(3) e1(3) ..
  ultimately show ?thesis using s(2) by (intro exI [of _ s] conjI)
qed

text \<open>
  When two different instances share a name the loops stop at the first write that
  meets the other instance, with the error of \<^verbatim>\<open>checkVar\<close>.
\<close>

lemma in_vars_map_of:
  assumes "wf_expr e" "v \<in> vars e"
  shows "\<exists>c. map_of (terms e) (Var.name v) = Some (v, c)"
proof (rule in_varsE [OF assms])
  fix c assume "map_of (terms e) (Var.name v) = Some (v, c)"
  then show ?thesis by (rule exI)
qed

lemma wf_inj:
  assumes "wf_expr e"
  shows "inj_on Var.name (vars e)"
proof (rule inj_onI)
  fix v w assume v: "v \<in> vars e" and w: "w \<in> vars e" and n: "Var.name v = Var.name w"
  from in_vars_map_of [OF assms v] obtain c where
    c: "map_of (terms e) (Var.name v) = Some (v, c)" ..
  from in_vars_map_of [OF assms w] obtain d where
    d: "map_of (terms e) (Var.name w) = Some (w, d)" ..
  from c d show "v = w" unfolding n by simp
qed

lemma foldM_setCoefficient_clash:
  assumes "wf_expr e" "distinct (map (\<lambda>p. Var.name (fst p)) xs)"
    and "\<not> inj_on Var.name (vars e \<union> fst ` set xs)"
    and "\<forall>p \<in> set xs. \<not> proto_member (Var.name (fst p))"
  shows "\<exists>v \<in> fst ` set xs. \<exists>w \<in> vars e \<union> fst ` set xs. v \<noteq> w \<and> Var.name v = Var.name w
           \<and> foldM (\<lambda>(v, c) e. setCoefficient e v (g v c)) xs e
               = Inl (Error (''Mismatching variable named '' @ Var.name v))"
  using assms
proof (induction xs arbitrary: e)
  case Nil
  with wf_inj [of e] show ?case by simp
next
  case (Cons x xs)
  obtain v c where x: "x = (v, c)" by (cases x)
  show ?case
  proof (cases "\<exists>w \<in> vars e. Var.name w = Var.name v \<and> w \<noteq> v")
    case True
    then obtain w where w: "w \<in> vars e" "Var.name w = Var.name v" "w \<noteq> v" by blast
    from setCoefficient_clash [OF Cons.prems(1) w]
    have "foldM (\<lambda>(v, c) e. setCoefficient e v (g v c)) (x # xs) e
        = Inl (Error (''Mismatching variable named '' @ Var.name v))"
      by (simp add: x and_then_def)
    with w show ?thesis unfolding x by (intro bexI [of _ v] bexI [of _ w]) auto
  next
    case False
    let ?e1 = "e\<lparr>terms := AList.update (Var.name v) (v, g v c) (terms e)\<rparr>"
    have np: "\<not> proto_member (Var.name v)" using Cons.prems(4) x by simp
    have clash: "\<And>w. w \<in> vars e \<Longrightarrow> Var.name w = Var.name v \<Longrightarrow> w = v"
      using False by blast
    have step: "setCoefficient e v (g v c) = Inr ?e1"
      using Cons.prems(1) np clash by (rule setCoefficient_ok)
    have wf1: "wf_expr ?e1" using Cons.prems(1) np by (rule wf_update)
    have vars1: "vars ?e1 = insert v (vars e)"
      using Cons.prems(1) np clash by (rule vars_update)
    have un: "vars ?e1 \<union> fst ` set xs = vars e \<union> fst ` set (x # xs)"
      by (simp add: vars1 x)
    have inj1: "\<not> inj_on Var.name (vars ?e1 \<union> fst ` set xs)"
      using Cons.prems(3) unfolding un .
    have d1: "distinct (map (\<lambda>p. Var.name (fst p)) xs)" using Cons.prems(2) by simp
    have np1: "\<forall>p \<in> set xs. \<not> proto_member (Var.name (fst p))"
      using Cons.prems(4) by simp
    from Cons.IH [OF wf1 d1 inj1 np1]
    obtain v' w' where vw: "v' \<in> fst ` set xs" "w' \<in> vars ?e1 \<union> fst ` set xs" "v' \<noteq> w'"
        "Var.name v' = Var.name w'"
        "foldM (\<lambda>(v, c) e. setCoefficient e v (g v c)) xs ?e1
           = Inl (Error (''Mismatching variable named '' @ Var.name v'))"
      by blast
    have "foldM (\<lambda>(v, c) e. setCoefficient e v (g v c)) (x # xs) e
        = Inl (Error (''Mismatching variable named '' @ Var.name v'))"
      by (simp add: x step and_then_Inr vw(5))
    moreover from vw(1) have "v' \<in> fst ` set (x # xs)" by auto
    moreover from vw(2) have "w' \<in> vars e \<union> fst ` set (x # xs)" unfolding un .
    ultimately show ?thesis using vw(3,4) by blast
  qed
qed

lemma saturate_constraints_clash:
  assumes "\<forall>c \<in> set cs. wf_expr c" "wf_expr e"
    and "\<not> inj_on Var.name (vars e \<union> (\<Union>c \<in> set cs. vars c))"
  shows "\<exists>v \<in> vars e \<union> (\<Union>c \<in> set cs. vars c). \<exists>w \<in> vars e \<union> (\<Union>c \<in> set cs. vars c).
           v \<noteq> w \<and> Var.name v = Var.name w
           \<and> foldM (\<lambda>constraint. foldM (\<lambda>(v, _) e. setCoefficient e v 0)
                        (getVarCoefficients constraint)) cs e
               = Inl (Error (''Mismatching variable named '' @ Var.name v))"
  using assms
proof (induction cs arbitrary: e)
  case Nil
  with wf_inj [of e] show ?case by simp
next
  case (Cons c cs)
  let ?xs = "getVarCoefficients c"
  let ?U = "vars e \<union> (\<Union>c \<in> set (c # cs). vars c)"
  have wfc: "wf_expr c" using Cons.prems(1) by simp
  have xs: "fst ` set ?xs = vars c" by (rule getVarCoefficients_props(1) [OF wfc])
  have np: "\<forall>p \<in> set ?xs. \<not> proto_member (Var.name (fst p))"
    using getVarCoefficients_props(3) [OF wfc] by auto
  show ?case
  proof (cases "inj_on Var.name (vars e \<union> fst ` set ?xs)")
    case True
    from foldM_setCoefficient [OF Cons.prems(2) getVarCoefficients_props(2) [OF wfc] True np,
        where g = "\<lambda>_ _. 0"]
    obtain e1 where e1: "foldM (\<lambda>(v, _) e. setCoefficient e v 0) ?xs e = Inr e1" "wf_expr e1"
        "vars e1 = vars e \<union> vars c"
      unfolding xs by blast
    have un: "vars e1 \<union> (\<Union>c \<in> set cs. vars c) = ?U"
      unfolding e1(3) by auto
    have inj1: "\<not> inj_on Var.name (vars e1 \<union> (\<Union>c \<in> set cs. vars c))"
      using Cons.prems(3) unfolding un .
    have wfcs: "\<forall>c \<in> set cs. wf_expr c" using Cons.prems(1) by simp
    from Cons.IH [OF wfcs e1(2) inj1] show ?thesis
      unfolding un by (simp add: e1(1) and_then_Inr)
  next
    case False
    from foldM_setCoefficient_clash [OF Cons.prems(2) getVarCoefficients_props(2) [OF wfc] False np,
        where g = "\<lambda>_ _. 0"]
    obtain v w where vw: "v \<in> vars c" "w \<in> vars e \<union> vars c" "v \<noteq> w" "Var.name v = Var.name w"
        "foldM (\<lambda>(v, _) e. setCoefficient e v 0) ?xs e
           = Inl (Error (''Mismatching variable named '' @ Var.name v))"
      unfolding xs by blast
    have "foldM (\<lambda>constraint. foldM (\<lambda>(v, _) e. setCoefficient e v 0)
             (getVarCoefficients constraint)) (c # cs) e
        = Inl (Error (''Mismatching variable named '' @ Var.name v))"
      by (simp add: vw(5) and_then_def)
    moreover from vw(1) have "v \<in> ?U" by simp
    moreover from vw(2) have "w \<in> ?U" by auto
    ultimately show ?thesis using vw(3,4) by blast
  qed
qed

lemma saturate_clash:
  assumes "wf_expr obj" "\<forall>c \<in> set cs. wf_expr c"
    and "\<not> inj_on Var.name (vars obj \<union> (\<Union>c \<in> set cs. vars c))"
  shows "\<exists>v \<in> vars obj \<union> (\<Union>c \<in> set cs. vars c). \<exists>w \<in> vars obj \<union> (\<Union>c \<in> set cs. vars c).
           v \<noteq> w \<and> Var.name v = Var.name w
           \<and> saturate obj cs = Inl (Error (''Mismatching variable named '' @ Var.name v))"
proof (cases "inj_on Var.name (vars (new_LinExpr :: 'a LinExpr) \<union> (\<Union>c \<in> set cs. vars c))")
  case True
  from saturate_constraints [OF assms(2) new_LinExpr_wf True]
  obtain e1 where e1: "foldM (\<lambda>constraint. foldM (\<lambda>(v, _) e. setCoefficient e v 0)
        (getVarCoefficients constraint)) cs new_LinExpr = Inr e1" "wf_expr e1"
      "vars e1 = (\<Union>c \<in> set cs. vars c)"
    unfolding new_LinExpr_vars by auto
  let ?xs = "getVarCoefficients obj"
  have xs: "fst ` set ?xs = vars obj" by (rule getVarCoefficients_props(1) [OF assms(1)])
  have inj: "\<not> inj_on Var.name (vars e1 \<union> fst ` set ?xs)"
    using assms(3) unfolding xs e1(3) by (simp add: Un_commute)
  have np: "\<forall>p \<in> set ?xs. \<not> proto_member (Var.name (fst p))"
    using getVarCoefficients_props(3) [OF assms(1)] by auto
  from foldM_setCoefficient_clash [OF e1(2) getVarCoefficients_props(2) [OF assms(1)] inj np,
      where g = "\<lambda>_ c. c"]
  obtain v w where vw: "v \<in> vars obj" "w \<in> vars e1 \<union> vars obj" "v \<noteq> w"
      "Var.name v = Var.name w"
      "foldM (\<lambda>(v, c) e. setCoefficient e v c) ?xs e1
         = Inl (Error (''Mismatching variable named '' @ Var.name v))"
    unfolding xs by blast
  have "saturate obj cs = Inl (Error (''Mismatching variable named '' @ Var.name v))"
    by (simp add: saturate_def e1(1) and_then_Inr vw(5))
  moreover from vw(1) have "v \<in> vars obj \<union> (\<Union>c \<in> set cs. vars c)" by simp
  moreover from vw(2) have "w \<in> vars obj \<union> (\<Union>c \<in> set cs. vars c)"
    unfolding e1(3) by auto
  ultimately show ?thesis using vw(3,4) by blast
next
  case False
  from saturate_constraints_clash [OF assms(2) new_LinExpr_wf False]
  obtain v w where vw: "v \<in> (\<Union>c \<in> set cs. vars c)" "w \<in> (\<Union>c \<in> set cs. vars c)" "v \<noteq> w"
      "Var.name v = Var.name w"
      "foldM (\<lambda>constraint. foldM (\<lambda>(v, _) e. setCoefficient e v 0)
          (getVarCoefficients constraint)) cs new_LinExpr
         = Inl (Error (''Mismatching variable named '' @ Var.name v))"
    unfolding new_LinExpr_vars Un_empty_left by blast
  have "saturate obj cs = Inl (Error (''Mismatching variable named '' @ Var.name v))"
    by (simp add: saturate_def vw(5) and_then_def)
  with vw(1-4) show ?thesis by blast
qed

lemmas example_defs = x_first_def x_second_def y_only_def objective_x_def constraint_x_second_def
  constraint_xy_def objective_negative_def constraint_unnamed_def RealVar_def IntVar_def BoolVar_def new_Var_def new_LinExpr_def new_Constraint_def

lemmas eval_defs = setCoefficient_def checkVar_def and_then_def getVarCoefficients_def Object_keys_def
  is_array_index_def is_digit_def proto_member_def saturate_def vars_def coeff_def wf_expr_def

lemma examples_built:
  "setCoefficient new_LinExpr x_first 2 = Inr objective_x"
  "setCoefficient (new_Constraint ''c'' None None) x_second 1 = Inr constraint_x_second"
  "and_then (setCoefficient (new_Constraint ''c'' (Some 0) None) x_first 5)
     (\<lambda>c. setCoefficient c y_only 3) = Inr constraint_xy"
  "setCoefficient new_LinExpr x_first (- 2) = Inr objective_negative"
  "setCoefficient (new_Constraint [] (Some 0) None) x_first 1 = Inr constraint_unnamed"
  by (simp_all add: example_defs eval_defs)

section \<open>makeLP: the loops keep the invariant\<close>

subsection \<open>One slot of one candidate\<close>

lemma ok_setCoefficient:
  assumes "ok U c" "inj_on Var.name U" "v \<in> U" "\<not> proto_member (Var.name v)"
  shows "setCoefficient c v n = Inr (c\<lparr>terms := AList.update (Var.name v) (v, n) (terms c)\<rparr>)"
    and "ok U (c\<lparr>terms := AList.update (Var.name v) (v, n) (terms c)\<rparr>)"
    and "vars (c\<lparr>terms := AList.update (Var.name v) (v, n) (terms c)\<rparr>) = insert v (vars c)"
proof -
  from assms(1) have wf: "wf_expr c" and sub: "vars c \<subseteq> U" by (simp_all add: ok_def)
  have clash: "\<And>w. w \<in> vars c \<Longrightarrow> Var.name w = Var.name v \<Longrightarrow> w = v"
    using sub assms(2,3) by (meson inj_onD subsetD)
  show "setCoefficient c v n = Inr (c\<lparr>terms := AList.update (Var.name v) (v, n) (terms c)\<rparr>)"
    using wf assms(4) clash by (rule setCoefficient_ok)
  show v': "vars (c\<lparr>terms := AList.update (Var.name v) (v, n) (terms c)\<rparr>) = insert v (vars c)"
    using wf assms(4) clash by (rule vars_update)
  show "ok U (c\<lparr>terms := AList.update (Var.name v) (v, n) (terms c)\<rparr>)"
    unfolding ok_def v' using wf_update [OF wf assms(4)] sub assms(3) by simp
qed

lemma opt_setCoefficient_ok:
  assumes "\<forall>c. x = Some c \<longrightarrow> ok U c" "inj_on Var.name U" "v \<in> U" "\<not> proto_member (Var.name v)"
  shows "\<exists>y. opt_setCoefficient x v n = Inr y \<and> (\<forall>c. y = Some c \<longrightarrow> ok U c)"
proof (cases x)
  case None
  then show ?thesis by (simp add: opt_setCoefficient_def)
next
  case (Some c)
  with assms(1) have "ok U c" by simp
  from ok_setCoefficient(1,2) [OF this assms(2-4)] Some show ?thesis
    by (simp add: opt_setCoefficient_def and_then_Inr)
qed

lemma oks_nth: "oks U row \<Longrightarrow> t < length row \<Longrightarrow> \<forall>c. row ! t = Some c \<longrightarrow> ok U c"
  by (metis nth_mem oks_def)

lemma oks_update: "oks U row \<Longrightarrow> \<forall>c. y = Some c \<longrightarrow> ok U c \<Longrightarrow> oks U (row[t := y])"
  unfolding oks_def by (metis insert_iff set_update_subset_insert subsetD)

lemma good_parts:
  assumes "good inp U s"
  shows "shaped inp s" "inj_on Var.name U" "\<forall>v \<in> U. \<not> proto_member (Var.name v)"
    "ok U (objective s)" "\<forall>c \<in> set (timeCounted s). ok U c" "oks U (haveEnoughRiders s)"
    "\<forall>row \<in> snd ` set (haveEnoughRidersOfType s). oks U row"
    "\<forall>row \<in> set (disjointAllocations s). oks U row"
  using assms by (simp_all add: good_def)

lemma shaped_parts:
  assumes "shaped inp s"
  shows "length (timeCounted s) = numRiders inp" "length (haveEnoughRiders s) = numTimeSlices inp"
    "fst ` set (haveEnoughRidersOfType s) = set (types inp)"
    "\<forall>row \<in> snd ` set (haveEnoughRidersOfType s). length row = numTimeSlices inp"
    "length (disjointAllocations s) = numRiders inp"
    "\<forall>row \<in> set (disjointAllocations s). length row = numTimeSlices inp"
  using assms by (simp_all add: shaped_def)

lemma snd_set_update:
  "snd ` set (AList.update k y al) \<subseteq> insert y (snd ` set al)"
  using set_update_subset [of k y al] by auto

lemma fst_set_update: "map_of al k = Some x \<Longrightarrow> fst ` set (AList.update k y al) = fst ` set al"
  by (auto simp: AList.dom_update dest: map_of_SomeD intro: rev_image_eqI)

lemma cover_ok:
  assumes g: "good inp U s" and v: "v \<in> U" and r: "r < numRiders inp"
    and t: "t < numTimeSlices inp"
  shows "\<exists>s'. cover inp v r t s = Inr s' \<and> good inp U s' \<and> objective s' = objective s
           \<and> timeCoefficient s' = timeCoefficient s"
proof -
  note p = good_parts [OF g]
  note sh = shaped_parts [OF p(1)]
  from p(3) v have np: "\<not> proto_member (Var.name v)" by simp
  \<comment> \<open>\<^verbatim>\<open>haveEnoughRiders[t]?.setCoefficient(v, 1)\<close>\<close>
  from oks_nth [OF p(6)] t sh(2) have "\<forall>c. haveEnoughRiders s ! t = Some c \<longrightarrow> ok U c"
    by simp
  from opt_setCoefficient_ok [OF this p(2) v np]
  obtain c1 where c1: "opt_setCoefficient (haveEnoughRiders s ! t) v 1 = Inr c1"
      "\<forall>c. c1 = Some c \<longrightarrow> ok U c" by blast
  define s1 where "s1 = s\<lparr>haveEnoughRiders := (haveEnoughRiders s)[t := c1]\<rparr>"
  have g1: "good inp U s1"
    using p sh oks_update [OF p(6) c1(2), of t] by (simp add: good_def shaped_def s1_def)
  note p1 = good_parts [OF g1]
  note sh1 = shaped_parts [OF p1(1)]
  \<comment> \<open>\<^verbatim>\<open>haveEnoughRidersOfType[riderType[rider]][t]?.setCoefficient(v, 1)\<close>\<close>
  let ?k = "riderType inp ! r"
  have "\<exists>s2. (case map_of (haveEnoughRidersOfType s1) ?k of
            None \<Rightarrow> Inr s1
          | Some row \<Rightarrow>
              and_then (opt_setCoefficient (row ! t) v 1) (\<lambda>c.
                Inr (s1\<lparr>haveEnoughRidersOfType :=
                         AList.update ?k (row[t := c]) (haveEnoughRidersOfType s1)\<rparr>))) = Inr s2
        \<and> good inp U s2 \<and> objective s2 = objective s \<and> timeCoefficient s2 = timeCoefficient s"
  proof (cases "map_of (haveEnoughRidersOfType s1) ?k")
    case None
    with g1 show ?thesis by (simp add: s1_def)
  next
    case (Some row)
    then have row: "row \<in> snd ` set (haveEnoughRidersOfType s1)"
      by (force dest: map_of_SomeD)
    with p1(7) sh1(4) have "oks U row" "length row = numTimeSlices inp" by auto
    from oks_nth [OF this(1)] t this(2) have "\<forall>c. row ! t = Some c \<longrightarrow> ok U c" by simp
    from opt_setCoefficient_ok [OF this p(2) v np]
    obtain c2 where c2: "opt_setCoefficient (row ! t) v 1 = Inr c2"
        "\<forall>c. c2 = Some c \<longrightarrow> ok U c" by blast
    let ?tbl = "AList.update ?k (row[t := c2]) (haveEnoughRidersOfType s1)"
    have k: "fst ` set ?tbl = set (types inp)"
      using fst_set_update [OF Some] sh1(3) by simp
    have rows: "\<forall>x \<in> snd ` set ?tbl. length x = numTimeSlices inp \<and> oks U x"
    proof
      fix x assume "x \<in> snd ` set ?tbl"
      with snd_set_update [of ?k "row[t := c2]" "haveEnoughRidersOfType s1"]
      have "x = row[t := c2] \<or> x \<in> snd ` set (haveEnoughRidersOfType s1)"
        by blast
      then show "length x = numTimeSlices inp \<and> oks U x"
        using oks_update [OF \<open>oks U row\<close> c2(2), of t] \<open>length row = numTimeSlices inp\<close>
          p1(7) sh1(4) by auto
    qed
    have "good inp U (s1\<lparr>haveEnoughRidersOfType := ?tbl\<rparr>)"
    using p1 sh1 k rows by (simp add: good_def shaped_def)
    with Some c2(1) show ?thesis by (simp add: and_then_Inr s1_def)
  qed
  then obtain s2 where s2: "(case map_of (haveEnoughRidersOfType s1) ?k of
            None \<Rightarrow> Inr s1
          | Some row \<Rightarrow>
              and_then (opt_setCoefficient (row ! t) v 1) (\<lambda>c.
                Inr (s1\<lparr>haveEnoughRidersOfType :=
                         AList.update ?k (row[t := c]) (haveEnoughRidersOfType s1)\<rparr>))) = Inr s2"
      "good inp U s2" "objective s2 = objective s" "timeCoefficient s2 = timeCoefficient s"
    by blast
  note p2 = good_parts [OF s2(2)]
  note sh2 = shaped_parts [OF p2(1)]
  \<comment> \<open>\<^verbatim>\<open>disjointAllocations[rider][t]?.setCoefficient(v, 1)\<close>\<close>
  let ?row = "disjointAllocations s2 ! r"
  from r sh2(5) have rowin: "?row \<in> set (disjointAllocations s2)" by simp
  with p2(8) sh2(6) have row3: "oks U ?row" "length ?row = numTimeSlices inp" by auto
  from oks_nth [OF this(1)] t this(2) have "\<forall>c. ?row ! t = Some c \<longrightarrow> ok U c" by simp
  from opt_setCoefficient_ok [OF this p(2) v np]
  obtain c3 where c3: "opt_setCoefficient (?row ! t) v 1 = Inr c3"
      "\<forall>c. c3 = Some c \<longrightarrow> ok U c" by blast
  let ?d = "(disjointAllocations s2)[r := ?row[t := c3]]"
  have rows3: "\<forall>x \<in> set ?d. length x = numTimeSlices inp \<and> oks U x"
  proof
    fix x assume "x \<in> set ?d"
    with set_update_subset_insert [of "disjointAllocations s2" r "?row[t := c3]"]
    have "x = ?row[t := c3] \<or> x \<in> set (disjointAllocations s2)"
      by blast
    then show "length x = numTimeSlices inp \<and> oks U x"
      using oks_update [OF row3(1) c3(2), of t] row3(2) p2(8) sh2(6) by auto
  qed
  have g3: "good inp U (s2\<lparr>disjointAllocations := ?d\<rparr>)"
    using p2 sh2 rows3 by (simp add: good_def shaped_def)
  have "cover inp v r t s = Inr (s2\<lparr>disjointAllocations := ?d\<rparr>)"
    unfolding cover_def c1(1) and_then_Inr Let_def s1_def [symmetric] s2(1) c3(1) ..
  with g3 s2(3,4) show ?thesis by simp
qed

subsection \<open>One candidate\<close>

lemma ok_mono: "ok U c \<Longrightarrow> U \<subseteq> U' \<Longrightarrow> ok U' c"
  by (auto simp: ok_def)

lemma oks_mono: "oks U row \<Longrightarrow> U \<subseteq> U' \<Longrightarrow> oks U' row"
  by (auto simp: oks_def intro: ok_mono)

lemma good_mono:
  assumes "good inp U s" "U \<subseteq> U'" "inj_on Var.name U'" "\<forall>v \<in> U'. \<not> proto_member (Var.name v)"
  shows "good inp U' s"
proof -
  note p = good_parts [OF assms(1)]
  have "ok U' (objective s)" using p(4) assms(2) by (rule ok_mono)
  moreover have "\<forall>c \<in> set (timeCounted s). ok U' c"
    using p(5) assms(2) by (blast intro: ok_mono)
  moreover have "oks U' (haveEnoughRiders s)" using p(6) assms(2) by (rule oks_mono)
  moreover have "\<forall>row \<in> snd ` set (haveEnoughRidersOfType s). oks U' row"
    using p(7) assms(2) by (blast intro: oks_mono)
  moreover have "\<forall>row \<in> set (disjointAllocations s). oks U' row"
    using p(8) assms(2) by (blast intro: oks_mono)
  ultimately show ?thesis using p(1) assms(3,4) by (simp add: good_def)
qed

lemma good_timeCoefficient [simp]: "good inp U (s\<lparr>timeCoefficient := n\<rparr>) = good inp U s"
  by (simp add: good_def shaped_def)

lemma foldM_cover_ok:
  assumes "good inp U s" "v \<in> U" "r < numRiders inp" "\<forall>t \<in> set ts. t < numTimeSlices inp"
  shows "\<exists>s'. foldM (cover inp v r) ts s = Inr s' \<and> good inp U s' \<and> objective s' = objective s
           \<and> timeCoefficient s' = timeCoefficient s"
  using assms
proof (induction ts arbitrary: s)
  case Nil
  then show ?case by simp
next
  case (Cons t ts)
  from Cons.prems(4) have t: "t < numTimeSlices inp" and ts: "\<forall>t \<in> set ts. t < numTimeSlices inp"
    by simp_all
  from cover_ok [OF Cons.prems(1,2,3) t]
  obtain s1 where s1: "cover inp v r t s = Inr s1" "good inp U s1" "objective s1 = objective s"
      "timeCoefficient s1 = timeCoefficient s" by blast
  from Cons.IH [OF s1(2) Cons.prems(2,3) ts] s1 show ?case
    by (simp add: and_then_Inr)
qed

lemma new_candidate:
  "candidate (set_auxData (BoolVar n (candidate_name r i j)) \<lparr>rider = r, t1 = i, t2 = j\<rparr>) r i j"
  by (simp add: candidate_def set_auxData_def BoolVar_def IntVar_def new_Var_def isBool_def
      isReal_def)

lemma candidate_unique:
  "candidate v r i j \<Longrightarrow> candidate w r' i' j' \<Longrightarrow> Var.name v = Var.name w \<Longrightarrow>
     r = r' \<and> i = i' \<and> j = j'"
  using candidate_name_inj [of r i j r' i' j'] by (simp add: candidate_def)

lemma add_candidate_ok:
  assumes c: "created inp S s" and new: "(r, i, j) \<notin> S"
    and r: "r < numRiders inp" and j: "j < numTimeSlices inp"
  shows "\<exists>s'. add_candidate inp r i j d s = Inr s' \<and> created inp (insert (r, i, j) S) s'"
proof -
  define v where "v = set_auxData (BoolVar (timeCoefficient s) (candidate_name r i j))
                        \<lparr>rider = r, t1 = i, t2 = j\<rparr>"
  define U where "U = vars (objective s)"
  from c have g: "good inp U s" and fin: "finite S" and tc: "timeCoefficient s = card S"
    and vs: "\<forall>u \<in> U. \<exists>(r, i, j) \<in> S. candidate u r i j \<and> coeff (objective s) u = Some 1"
    and sv: "\<forall>(r, i, j) \<in> S. \<exists>u \<in> U. candidate u r i j"
    by (simp_all add: created_def U_def)
  note p = good_parts [OF g]
  have cv: "candidate v r i j" unfolding v_def by (rule new_candidate)
  then have nv: "Var.name v = candidate_name r i j" by (simp add: candidate_def)
  have np: "\<not> proto_member (Var.name v)" unfolding nv by (rule candidate_name_not_proto)
  have fresh: "\<forall>u \<in> U. Var.name u \<noteq> Var.name v"
  proof
    fix u assume "u \<in> U"
    with vs obtain r' i' j' where m: "(r', i', j') \<in> S" and cu: "candidate u r' i' j'"
      by blast
    show "Var.name u \<noteq> Var.name v"
    proof
      assume "Var.name u = Var.name v"
      from candidate_unique [OF cu cv this] m new show False by simp
    qed
  qed
  let ?U = "insert v U"
  have inj: "inj_on Var.name ?U"
    using p(2) fresh by (auto simp: inj_on_insert)
  have npU: "\<forall>u \<in> ?U. \<not> proto_member (Var.name u)" using p(3) np by simp
  have g': "good inp ?U s" using g _ inj npU by (rule good_mono) auto
  note p' = good_parts [OF g']
  note sh = shaped_parts [OF p'(1)]
  let ?obj = "(objective s)\<lparr>terms := AList.update (Var.name v) (v, 1) (terms (objective s))\<rparr>"
  have vin: "v \<in> ?U" by simp
  note o = ok_setCoefficient [OF p'(4) inj vin np, of 1]
  from r sh(1) p'(5) have "ok ?U (timeCounted s ! r)" by simp
  note k = ok_setCoefficient [OF this inj vin np, of "- d"]
  let ?tc = "(timeCounted s ! r)\<lparr>terms := AList.update (Var.name v) (v, - d) (terms (timeCounted s ! r))\<rparr>"
  let ?s0 = "s\<lparr>objective := ?obj, timeCounted := (timeCounted s)[r := ?tc]\<rparr>"
  have tcs: "\<forall>c \<in> set ((timeCounted s)[r := ?tc]). ok ?U c"
  proof
    fix c assume "c \<in> set ((timeCounted s)[r := ?tc])"
    with set_update_subset_insert [of "timeCounted s" r ?tc]
    have "c = ?tc \<or> c \<in> set (timeCounted s)" by blast
    with k(2) p'(5) show "ok ?U c" by blast
  qed
  have g0: "good inp ?U ?s0"
    using p' sh o(2) tcs by (simp add: good_def shaped_def)
  have "\<forall>t \<in> set [i..<Suc j]. t < numTimeSlices inp" using j by auto
  from foldM_cover_ok [OF g0 vin r this]
  obtain s1 where s1: "foldM (cover inp v r) [i..<Suc j] ?s0 = Inr s1" "good inp ?U s1"
      "objective s1 = ?obj" "timeCoefficient s1 = timeCoefficient s" by auto
  let ?s' = "s1\<lparr>timeCoefficient := timeCoefficient s1 + 1\<rparr>"
  have run: "add_candidate inp r i j d s = Inr ?s'"
    unfolding add_candidate_def v_def [symmetric] Let_def o(1) k(1) and_then_Inr s1(1) ..
  have vobj: "vars (objective ?s') = ?U" using o(3) s1(3) by (simp add: U_def)
  have "good inp (vars (objective ?s')) ?s'" unfolding vobj using s1(2) by simp
  moreover have "finite (insert (r, i, j) S)" using fin by simp
  moreover have "timeCoefficient ?s' = card (insert (r, i, j) S)"
    using fin new tc s1(4) by simp
  moreover have "\<forall>u \<in> vars (objective ?s').
      \<exists>(r, i, j) \<in> insert (r, i, j) S. candidate u r i j \<and> coeff (objective ?s') u = Some 1"
    unfolding vobj
  proof
    fix u assume u: "u \<in> ?U"
    show "\<exists>(r, i, j) \<in> insert (r, i, j) S. candidate u r i j \<and> coeff (objective ?s') u = Some 1"
    proof (cases "u = v")
      case True
      with cv show ?thesis by (simp add: s1(3) coeff_update)
    next
      case False
      with u have uU: "u \<in> U" by simp
      with fresh have "Var.name u \<noteq> Var.name v" by simp
      then have "coeff (objective ?s') u = coeff (objective s) u"
        by (simp add: s1(3) coeff_update)
      with vs uU show ?thesis by fastforce
    qed
  qed
  moreover have "\<forall>(r, i, j) \<in> insert (r, i, j) S. \<exists>u \<in> vars (objective ?s'). candidate u r i j"
    unfolding vobj using cv sv by auto
  ultimately have "created inp (insert (r, i, j) S) ?s'"
    unfolding created_def by (intro conjI)
  with run show ?thesis by blast
qed

subsection \<open>The three nested loops\<close>

lemma run_sum_Suc:
  "i \<le> j \<Longrightarrow> run_sum inp i (Suc j) = dadd (run_sum inp i j) (duration inp ! j)"
  by (simp add: run_sum_def)

lemma feasible_here:
  assumes "r < numRiders inp" "i \<le> j" "j < numTimeSlices inp"
    and "\<forall>t. i \<le> t \<and> t < j \<longrightarrow> available inp ! t ! r" "available inp ! j ! r"
  shows "feasible inp r i j = (minDuration inp \<le> run_sum inp i (Suc j))"
proof -
  have "\<forall>t \<in> {i..j}. available inp ! t ! r"
  proof
    fix t assume "t \<in> {i..j}"
    then have "i \<le> t \<and> t < j \<or> t = j" by auto
    with assms(4,5) show "available inp ! t ! r" by blast
  qed
  with assms(1-3) show ?thesis by (simp add: feasible_def)
qed

lemma before_Suc:
  "before inp r i (Suc j) = (if feasible inp r i j then insert (r, i, j) (before inp r i j)
                             else before inp r i j)"
proof -
  have "\<And>j'. (j' < Suc j) = (j' < j \<or> j' = j)" by auto
  then have "before inp r i (Suc j) = before inp r i j \<union> {x. x = (r, i, j) \<and> feasible inp r i j}"
    unfolding before_def by auto
  then show ?thesis by auto
qed

lemma not_in_before: "(r, i, j) \<notin> before inp r i j"
  by (simp add: before_def)

lemma before_exit:
  assumes "i \<le> j" "\<not> (j < numTimeSlices inp \<and> available inp ! j ! r)"
  shows "before inp r (Suc i) 0 = before inp r i j"
proof -
  have key: "\<And>j'. feasible inp r i j' \<Longrightarrow> j' < j"
  proof (rule ccontr)
    fix j' assume f: "feasible inp r i j'" and n: "\<not> j' < j"
    from f have "j' < numTimeSlices inp" "\<forall>t \<in> {i..j'}. available inp ! t ! r"
      by (simp_all add: feasible_def)
    moreover from n assms(1) have "j \<in> {i..j'}" "j \<le> j'" by simp_all
    ultimately have "j < numTimeSlices inp \<and> available inp ! j ! r" by auto
    with assms(2) show False ..
  qed
  have "\<And>r' i' j'. feasible inp r' i' j' \<Longrightarrow>
      (r' < r \<or> r' = r \<and> (i' < Suc i \<or> i' = Suc i \<and> j' < 0))
      = (r' < r \<or> r' = r \<and> (i' < i \<or> i' = i \<and> j' < j))"
    using key by (auto simp: less_Suc_eq)
  then show ?thesis unfolding before_def by blast
qed

lemma before_next_rider: "before inp r (numTimeSlices inp) 0 = before inp (Suc r) 0 0"
proof -
  have "\<And>r' i' j'. feasible inp r' i' j' \<Longrightarrow> i' < numTimeSlices inp"
    by (simp add: feasible_def)
  then have "\<And>r' i' j'. feasible inp r' i' j' \<Longrightarrow>
      (r' < r \<or> r' = r \<and> (i' < numTimeSlices inp \<or> i' = numTimeSlices inp \<and> j' < 0))
      = (r' < Suc r \<or> r' = Suc r \<and> (i' < 0 \<or> i' = 0 \<and> j' < 0))"
    by (auto simp: less_Suc_eq)
  then show ?thesis unfolding before_def by blast
qed

lemma before_0: "before inp 0 0 0 = {}"
  by (simp add: before_def)

lemma before_all: "before inp (numRiders inp) 0 0 = feasible_set inp"
  by (auto simp: before_def feasible_set_def feasible_def)

lemma loop_t2_ok:
  assumes "created inp (before inp r i j) s" "r < numRiders inp" "i \<le> j"
    and "\<forall>t. i \<le> t \<and> t < j \<longrightarrow> available inp ! t ! r"
    and "d = run_sum inp i j"
  shows "\<exists>s'. loop_t2 inp r i j d s = Inr s' \<and> created inp (before inp r (Suc i) 0) s'"
  using assms
proof (induction k \<equiv> "numTimeSlices inp - j" arbitrary: j d s rule: less_induct)
  case less
  show ?case
  proof (cases "j < numTimeSlices inp \<and> available inp ! j ! r")
    case False
    have "loop_t2 inp r i j d s = Inr s"
      by (subst loop_t2.simps) (use False in auto)
    moreover from before_exit [OF less.prems(3) False] less.prems(1)
    have "created inp (before inp r (Suc i) 0) s" by simp
    ultimately show ?thesis by simp
  next
    case True
    then have j: "j < numTimeSlices inp" and a: "available inp ! j ! r" by simp_all
    define d' where "d' = dadd d (duration inp ! j)"
    have d': "d' = run_sum inp i (Suc j)"
      using less.prems(3,5) by (simp add: d'_def run_sum_Suc)
    have f: "feasible inp r i j = (minDuration inp \<le> d')"
      using feasible_here [OF less.prems(2,3) j less.prems(4) a] d' by simp
    have pre: "\<forall>t. i \<le> t \<and> t < Suc j \<longrightarrow> available inp ! t ! r"
      using less.prems(4) a by (auto simp: less_Suc_eq)
    have m: "numTimeSlices inp - Suc j < numTimeSlices inp - j" using j by simp
    have ij: "i \<le> Suc j" using less.prems(3) by simp
    show ?thesis
    proof (cases "minDuration inp \<le> d'")
      case yes: True
      from add_candidate_ok [OF less.prems(1) not_in_before less.prems(2) j, of d']
      obtain s1 where s1: "add_candidate inp r i j d' s = Inr s1"
          "created inp (insert (r, i, j) (before inp r i j)) s1" by blast
      from s1(2) f yes have "created inp (before inp r i (Suc j)) s1"
        by (simp add: before_Suc)
      from less.hyps [OF m this less.prems(2) ij pre d']
      obtain s' where "loop_t2 inp r i (Suc j) d' s1 = Inr s'"
          "created inp (before inp r (Suc i) 0) s'" by blast
      moreover have "loop_t2 inp r i j d s = loop_t2 inp r i (Suc j) d' s1"
        by (subst loop_t2.simps) (use True yes s1(1) in \<open>simp add: d'_def Let_def and_then_Inr\<close>)
      ultimately show ?thesis by simp
    next
      case no: False
      from less.prems(1) f no have "created inp (before inp r i (Suc j)) s"
        by (simp add: before_Suc)
      from less.hyps [OF m this less.prems(2) ij pre d']
      obtain s' where "loop_t2 inp r i (Suc j) d' s = Inr s'"
          "created inp (before inp r (Suc i) 0) s'" by blast
      moreover have "loop_t2 inp r i j d s = loop_t2 inp r i (Suc j) d' s"
        by (subst loop_t2.simps) (use True no in \<open>simp add: d'_def Let_def\<close>)
      ultimately show ?thesis by simp
    qed
  qed
qed

lemma foldM_upt_inv:
  assumes "P a s" "a \<le> b"
    and "\<And>k s. a \<le> k \<Longrightarrow> k < b \<Longrightarrow> P k s \<Longrightarrow> \<exists>s'. f k s = Inr s' \<and> P (Suc k) s'"
  shows "\<exists>s'. foldM f [a..<b] s = Inr s' \<and> P b s'"
  using assms
proof (induction n \<equiv> "b - a" arbitrary: a s)
  case 0
  then show ?case by simp
next
  case (Suc n)
  then have ab: "a < b" by simp
  from Suc.prems(3) [OF le_refl ab Suc.prems(1)]
  obtain s1 where s1: "f a s = Inr s1" "P (Suc a) s1" by blast
  have n: "n = b - Suc a" using Suc.hyps(2) by simp
  have step: "\<And>k s. Suc a \<le> k \<Longrightarrow> k < b \<Longrightarrow> P k s \<Longrightarrow> \<exists>s'. f k s = Inr s' \<and> P (Suc k) s'"
    using Suc.prems(3) by simp
  from Suc.hyps(1) [OF n s1(2) _ step] ab
  obtain s' where "foldM f [Suc a..<b] s1 = Inr s'" "P b s'" by auto
  with s1(1) ab show ?case by (simp add: upt_conv_Cons and_then_Inr)
qed

lemma loop_t1_ok:
  assumes "created inp (before inp r 0 0) s" "r < numRiders inp"
  shows "\<exists>s'. loop_t1 inp r s = Inr s' \<and> created inp (before inp (Suc r) 0 0) s'"
proof -
  have "\<exists>s'. foldM (\<lambda>i. loop_t2 inp r i i 0) [0..<numTimeSlices inp] s = Inr s'
          \<and> created inp (before inp r (numTimeSlices inp) 0) s'"
  proof (rule foldM_upt_inv [where P = "\<lambda>i. created inp (before inp r i 0)"])
    show "created inp (before inp r 0 0) s" by (rule assms(1))
    show "0 \<le> numTimeSlices inp" by simp
    fix k s assume "k < numTimeSlices inp" "created inp (before inp r k 0) s"
    moreover have "before inp r k 0 = before inp r k k"
      unfolding before_def by (auto simp: feasible_def)
    ultimately have c: "created inp (before inp r k k) s" by simp
    have pre: "\<forall>t. k \<le> t \<and> t < k \<longrightarrow> available inp ! t ! r" by auto
    have d0: "(0::real) = run_sum inp k k" by (simp add: run_sum_def)
    from loop_t2_ok [OF c assms(2) le_refl pre d0]
    show "\<exists>s'. loop_t2 inp r k k 0 s = Inr s' \<and> created inp (before inp r (Suc k) 0) s'" .
  qed
  then show ?thesis by (simp add: loop_t1_def before_next_rider)
qed

lemma loop_rider_ok:
  assumes "created inp {} s"
  shows "\<exists>s'. loop_rider inp s = Inr s' \<and> created inp (feasible_set inp) s'"
proof -
  have "\<exists>s'. foldM (loop_t1 inp) [0..<numRiders inp] s = Inr s'
          \<and> created inp (before inp (numRiders inp) 0 0) s'"
  proof (rule foldM_upt_inv [where P = "\<lambda>r. created inp (before inp r 0 0)"])
    show "created inp (before inp 0 0 0) s" using assms by (simp add: before_0)
    show "0 \<le> numRiders inp" by simp
    fix k s assume "k < numRiders inp" "created inp (before inp k 0 0) s"
    from loop_t1_ok [OF this(2,1)]
    show "\<exists>s'. loop_t1 inp k s = Inr s' \<and> created inp (before inp (Suc k) 0 0) s'" .
  qed
  then show ?thesis by (simp add: loop_rider_def before_all)
qed

subsection \<open>The shape checks and the initial state\<close>

lemma assert_Inr_iff:
  "(and_then (assert c None) f = Inr x) = (c \<and> f () = Inr x)"
  "(assert c None = Inr y) = c"
  by (simp_all add: assert_def and_then_def)

lemma assert_Inl_iff:
  "(and_then (assert c None) f = Inl e) = (\<not> c \<and> e = Error [] \<or> c \<and> f () = Inl e)"
  "(assert c None = Inl e) = (\<not> c \<and> e = Error [])"
  by (auto simp: assert_def and_then_def)

lemma check_shapes_iff:
  "check_shapes inp = Inr () \<longleftrightarrow>
     length (duration inp) = numTimeSlices inp
     \<and> list_all (\<lambda>type. case map_of (expectedOfType inp) type of
                          Some xs \<Rightarrow> length xs = numTimeSlices inp | None \<Rightarrow> False) (types inp)
     \<and> length (riderType inp) = numRiders inp
     \<and> length (available inp) = numTimeSlices inp
     \<and> list_all (\<lambda>a. length a = numRiders inp) (available inp)
     \<and> list_all (\<lambda>d. 0 \<le> d) (duration inp)
     \<and> list_all (\<lambda>count. 0 \<le> count \<and> count \<le> real (numRiders inp)) (expected inp)
     \<and> list_all (\<lambda>type. map_of (expectedOfType inp) type \<noteq> None \<or> proto_member type)
          (riderType inp)"
proof -
  have "length (expected inp) = numTimeSlices inp" "length (guaranteed inp) = numRiders inp"
    by (simp_all add: numTimeSlices_def numRiders_def)
  then show ?thesis
    unfolding check_shapes_def assert_Inr_iff by simp
qed

lemma check_shapes_result: "check_shapes inp = Inr () \<or> check_shapes inp = Inl (Error [])"
proof (cases "check_shapes inp")
  case (Inl e)
  then have "e = Error []"
    unfolding check_shapes_def assert_Inl_iff by blast
  with Inl show ?thesis by simp
next
  case (Inr u)
  then show ?thesis by simp
qed

lemma makeRecord_fold:
  "fst ` set (foldl (\<lambda>r key. AList.update key (f key) r) acc ks) = fst ` set acc \<union> set ks
   \<and> snd ` set (foldl (\<lambda>r key. AList.update key (f key) r) acc ks) \<subseteq> snd ` set acc \<union> f ` set ks"
proof (induction ks arbitrary: acc)
  case Nil
  then show ?case by simp
next
  case (Cons k ks)
  have "fst ` set (AList.update k (f k) acc) = {k} \<union> fst ` set acc"
    by (rule AList.dom_update)
  moreover have "snd ` set (AList.update k (f k) acc) \<subseteq> insert (f k) (snd ` set acc)"
    by (rule snd_set_update)
  moreover note Cons.IH [of "AList.update k (f k) acc"]
  ultimately show ?case by (simp add: subset_iff) blast
qed

lemma makeRecord_keys: "fst ` set (makeRecord ks f) = set ks"
  using makeRecord_fold [of f "[]" ks] by (simp add: makeRecord_def)

lemma makeRecord_vals: "snd ` set (makeRecord ks f) \<subseteq> f ` set ks"
  using makeRecord_fold [of f "[]" ks] by (simp add: makeRecord_def)

lemma ok_new_Constraint: "ok U (new_Constraint n lo up)"
  by (simp add: ok_def new_Constraint_wf new_Constraint_vars)

lemma oks_new_row:
  "oks U (map (\<lambda>x. if p x then Some (new_Constraint (n x) (lo x) (up x)) else None) xs)"
  by (auto simp: oks_def ok_new_Constraint)

lemma init_created:
  assumes "check_shapes inp = Inr ()"
  shows "created inp {} (init_locals inp)"
proof -
  let ?s = "init_locals inp"
  let ?f = "\<lambda>type. map (\<lambda>(t, count).
                 if count \<noteq> 0
                 then Some (new_Constraint (''enough['' @ type @ '']['' @ show_nat t @ '']'')
                              (Some count) None)
                 else None)
            (enumerate 0 (the (map_of (expectedOfType inp) type)))"
  have tbl: "haveEnoughRidersOfType ?s = makeRecord (types inp) ?f"
    by (simp add: init_locals_def)
  from assms have len: "list_all (\<lambda>type. case map_of (expectedOfType inp) type of
      Some xs \<Rightarrow> length xs = numTimeSlices inp | None \<Rightarrow> False) (types inp)"
    by (simp add: check_shapes_iff)
  have rows: "\<forall>row \<in> snd ` set (haveEnoughRidersOfType ?s).
      length row = numTimeSlices inp \<and> oks {} row"
  proof
    fix row assume "row \<in> snd ` set (haveEnoughRidersOfType ?s)"
    with makeRecord_vals [of "types inp" ?f] obtain type where
      ty: "type \<in> set (types inp)" and row: "row = ?f type"
      unfolding tbl by blast
    from len ty have "length (the (map_of (expectedOfType inp) type)) = numTimeSlices inp"
      by (auto simp: list_all_iff split: option.splits)
    then have "length row = numTimeSlices inp" by (simp add: row)
    moreover have "oks {} row"
      unfolding row case_prod_beta by (rule oks_new_row)
    ultimately show "length row = numTimeSlices inp \<and> oks {} row" ..
  qed
  have sh: "shaped inp ?s"
    unfolding shaped_def using rows makeRecord_keys [of "types inp" ?f]
    by (simp add: tbl) (simp add: init_locals_def numTimeSlices_def)
  have "oks {} (haveEnoughRiders ?s)"
    unfolding init_locals_def case_prod_beta by (simp add: oks_new_row)
  moreover have "\<forall>row \<in> set (disjointAllocations ?s). oks {} row"
    unfolding init_locals_def by (auto simp: oks_new_row)
  moreover have "\<forall>c \<in> set (timeCounted ?s). ok {} c"
    unfolding init_locals_def by (auto simp: ok_new_Constraint)
  moreover have obj: "objective ?s = new_LinExpr" by (simp add: init_locals_def)
  moreover have "ok {} (new_LinExpr :: AuxData LinExpr)"
    by (simp add: ok_def new_LinExpr_wf new_LinExpr_vars)
  ultimately have "good inp {} ?s"
    using sh rows by (simp add: good_def)
  moreover have "timeCoefficient ?s = 0" by (simp add: init_locals_def)
  ultimately show ?thesis
    by (simp add: created_def obj new_LinExpr_vars)
qed

subsection \<open>The constraint list\<close>

lemma set_append_defined:
  "set (append_defined dest source) = set dest \<union> {c. Some c \<in> set source}"
  by (auto simp: append_defined_def split: option.splits)

lemma foldl_append_defined:
  assumes "\<forall>c \<in> set acc. P c" "\<forall>x \<in> set xs. \<forall>c. Some c \<in> set (g x) \<longrightarrow> P c"
  shows "\<forall>c \<in> set (foldl (\<lambda>cs x. append_defined cs (g x)) acc xs). P c"
  using assms
proof (induction xs arbitrary: acc)
  case Nil
  then show ?case by simp
next
  case (Cons x xs)
  have "\<forall>c \<in> set (append_defined acc (g x)). P c"
    using Cons.prems by (simp add: set_append_defined) blast
  moreover have "\<forall>x \<in> set xs. \<forall>c. Some c \<in> set (g x) \<longrightarrow> P c"
    using Cons.prems(2) by simp
  ultimately show ?case using Cons.IH by simp
qed

lemma all_constraints_ok:
  assumes "good inp U s"
  shows "\<forall>c \<in> set (all_constraints inp s). ok U c"
proof -
  note p = good_parts [OF assms]
  note sh = shaped_parts [OF p(1)]
  let ?c1 = "append_defined (timeCounted s) (haveEnoughRiders s)"
  have c1: "\<forall>c \<in> set ?c1. ok U c"
    using p(5,6) by (auto simp: set_append_defined oks_def)
  let ?c2 = "foldl (\<lambda>cs type. append_defined cs (the (map_of (haveEnoughRidersOfType s) type)))
               ?c1 (types inp)"
  have "\<forall>type \<in> set (types inp).
      \<forall>c. Some c \<in> set (the (map_of (haveEnoughRidersOfType s) type)) \<longrightarrow> ok U c"
  proof (intro ballI allI impI)
    fix type c assume ty: "type \<in> set (types inp)"
      and c: "Some c \<in> set (the (map_of (haveEnoughRidersOfType s) type))"
    from ty sh(3) have "type \<in> fst ` set (haveEnoughRidersOfType s)" by simp
    then obtain row where row: "map_of (haveEnoughRidersOfType s) type = Some row"
      by (metis domD dom_map_of_conv_image_fst)
    then have "row \<in> snd ` set (haveEnoughRidersOfType s)"
      by (force dest: map_of_SomeD)
    with p(7) c row show "ok U c" by (auto simp: oks_def)
  qed
  with c1 have c2: "\<forall>c \<in> set ?c2. ok U c" by (rule foldl_append_defined)
  have "\<forall>row \<in> set (disjointAllocations s). \<forall>c. Some c \<in> set (id row) \<longrightarrow> ok U c"
    using p(8) by (auto simp: oks_def)
  with c2 have "\<forall>c \<in> set (foldl (\<lambda>cs x. append_defined cs (id x)) ?c2 (disjointAllocations s)).
      ok U c"
    by (rule foldl_append_defined)
  then show ?thesis by (simp add: all_constraints_def Let_def)
qed

subsection \<open>The time variables and the result of makeLP\<close>

lemma created_timed: "created inp S s \<Longrightarrow> timed inp S 0 s"
  unfolding created_def timed_def by blast

lemma new_time_var:
  "time_var inp (RealVar k (time_name n) (Some (guaranteed inp ! n)) None) n"
  by (simp add: time_var_def RealVar_def new_Var_def isReal_def)

lemma add_time_ok:
  assumes c: "timed inp S n s" and n: "n < numRiders inp"
  shows "\<exists>s'. add_time inp n s = Inr s' \<and> timed inp S (Suc n) s'"
proof -
  define v :: "AuxData Var"
    where "v = RealVar (timeCoefficient s + n) (time_name n) (Some (guaranteed inp ! n)) None"
  define U where "U = vars (objective s)"
  from c have g: "good inp U s" and tc: "timeCoefficient s = card S"
    and vs: "\<forall>u \<in> U. (\<exists>(r, i, j) \<in> S. candidate u r i j \<and> coeff (objective s) u = Some 1)
               \<or> (\<exists>r < n. time_var inp u r \<and> coeff (objective s) u = Some (real (card S)))"
    and sv: "\<forall>(r, i, j) \<in> S. \<exists>u \<in> U. candidate u r i j"
    and tv: "\<forall>r < n. \<exists>u \<in> U. time_var inp u r"
    by (simp_all add: timed_def U_def)
  note p = good_parts [OF g]
  have cv: "time_var inp v n" unfolding v_def by (rule new_time_var)
  then have nv: "Var.name v = time_name n" by (simp add: time_var_def)
  have np: "\<not> proto_member (Var.name v)" unfolding nv by (rule time_name_not_proto)
  have fresh: "\<forall>u \<in> U. Var.name u \<noteq> Var.name v"
  proof
    fix u assume "u \<in> U"
    with vs consider (cand) r i j where "candidate u r i j"
      | (time) r where "r < n" "time_var inp u r" by blast
    then show "Var.name u \<noteq> Var.name v"
    proof cases
      case cand
      then show ?thesis unfolding nv by (simp add: candidate_def candidate_not_time)
    next
      case time
      then show ?thesis unfolding nv using time_name_inj [of r n] by (auto simp: time_var_def)
    qed
  qed
  let ?U = "insert v U"
  have inj: "inj_on Var.name ?U"
    using p(2) fresh by (auto simp: inj_on_insert)
  have npU: "\<forall>u \<in> ?U. \<not> proto_member (Var.name u)" using p(3) np by simp
  have g': "good inp ?U s" using g _ inj npU by (rule good_mono) auto
  note p' = good_parts [OF g']
  note sh = shaped_parts [OF p'(1)]
  let ?obj = "(objective s)\<lparr>terms := AList.update (Var.name v) (v, real (timeCoefficient s))
                (terms (objective s))\<rparr>"
  have vin: "v \<in> ?U" by simp
  note o = ok_setCoefficient [OF p'(4) inj vin np, of "real (timeCoefficient s)"]
  from n sh(1) p'(5) have "ok ?U (timeCounted s ! n)" by simp
  note k = ok_setCoefficient [OF this inj vin np, of 1]
  let ?tc = "(timeCounted s ! n)\<lparr>terms := AList.update (Var.name v) (v, 1) (terms (timeCounted s ! n))\<rparr>"
  let ?s' = "s\<lparr>objective := ?obj, timeCounted := (timeCounted s)[n := ?tc]\<rparr>"
  have tcs: "\<forall>c \<in> set ((timeCounted s)[n := ?tc]). ok ?U c"
  proof
    fix c assume "c \<in> set ((timeCounted s)[n := ?tc])"
    with set_update_subset_insert [of "timeCounted s" n ?tc]
    have "c = ?tc \<or> c \<in> set (timeCounted s)" by blast
    with k(2) p'(5) show "ok ?U c" by blast
  qed
  have g0: "good inp ?U ?s'"
    using p' sh o(2) tcs by (simp add: good_def shaped_def)
  have run: "add_time inp n s = Inr ?s'"
    unfolding add_time_def v_def [symmetric] Let_def o(1) k(1) and_then_Inr ..
  have vobj: "vars (objective ?s') = ?U" using o(3) by (simp add: U_def)
  have "good inp (vars (objective ?s')) ?s'" unfolding vobj using g0 .
  moreover have "timeCoefficient ?s' = card S" using tc by simp
  moreover have "\<forall>u \<in> vars (objective ?s').
      (\<exists>(r, i, j) \<in> S. candidate u r i j \<and> coeff (objective ?s') u = Some 1)
      \<or> (\<exists>r < Suc n. time_var inp u r \<and> coeff (objective ?s') u = Some (real (card S)))"
    unfolding vobj
  proof
    fix u assume u: "u \<in> ?U"
    show "(\<exists>(r, i, j) \<in> S. candidate u r i j \<and> coeff (objective ?s') u = Some 1)
      \<or> (\<exists>r < Suc n. time_var inp u r \<and> coeff (objective ?s') u = Some (real (card S)))"
    proof (cases "u = v")
      case True
      have "time_var inp u n \<and> coeff (objective ?s') u = Some (real (card S))"
        using cv tc True by (simp add: coeff_update)
      then show ?thesis by blast
    next
      case False
      with u have uU: "u \<in> U" by simp
      with fresh have "Var.name u \<noteq> Var.name v" by simp
      then have same: "coeff (objective ?s') u = coeff (objective s) u"
        by (simp add: coeff_update)
      from vs uU show ?thesis unfolding same using less_Suc_eq by blast
    qed
  qed
  moreover have "\<forall>(r, i, j) \<in> S. \<exists>u \<in> vars (objective ?s'). candidate u r i j"
    unfolding vobj using sv by auto
  moreover have "\<forall>r < Suc n. \<exists>u \<in> vars (objective ?s'). time_var inp u r"
    unfolding vobj using tv cv by (auto simp: less_Suc_eq)
  ultimately have "timed inp S (Suc n) ?s'"
    unfolding timed_def by (intro conjI)
  with run show ?thesis by blast
qed

lemma makeLP_result:
  assumes "check_shapes inp = Inr ()"
  shows "\<exists>obj cs. makeLP inp = Inr (obj, cs) \<and> built inp obj cs"
proof -
  from loop_rider_ok [OF init_created [OF assms]]
  obtain s1 where s1: "loop_rider inp (init_locals inp) = Inr s1"
      "created inp (feasible_set inp) s1" by blast
  have "\<exists>s'. foldM (add_time inp) [0..<numRiders inp] s1 = Inr s'
          \<and> timed inp (feasible_set inp) (numRiders inp) s'"
  proof (rule foldM_upt_inv [where P = "timed inp (feasible_set inp)"])
    show "timed inp (feasible_set inp) 0 s1" using s1(2) by (rule created_timed)
    show "0 \<le> numRiders inp" by simp
    fix k s assume "k < numRiders inp" "timed inp (feasible_set inp) k s"
    from add_time_ok [OF this(2,1)]
    show "\<exists>s'. add_time inp k s = Inr s' \<and> timed inp (feasible_set inp) (Suc k) s'" .
  qed
  then obtain s2 where s2: "foldM (add_time inp) [0..<numRiders inp] s1 = Inr s2"
      "timed inp (feasible_set inp) (numRiders inp) s2" by blast
  have run: "makeLP inp = Inr (objective s2, all_constraints inp s2)"
    by (simp add: makeLP_def assms and_then_Inr s1(1) s2(1))
  from s2(2) have g: "good inp (vars (objective s2)) s2" by (simp add: timed_def)
  note p = good_parts [OF g]
  from all_constraints_ok [OF g]
  have "\<forall>c \<in> set (all_constraints inp s2). wf_expr c \<and> vars c \<subseteq> vars (objective s2)"
    by (simp add: ok_def)
  moreover have "wf_expr (objective s2)" using p(4) by (simp add: ok_def)
  ultimately have "built inp (objective s2) (all_constraints inp s2)"
    using s2(2) p(2) unfolding built_def timed_def by (intro conjI) blast+
  with run show ?thesis by blast
qed

subsection \<open>The end-to-end example, evaluated\<close>

lemma digit_0: "digit 0 = CHR ''0''"
  unfolding digit_def by code_simp

lemma show_nat_0: "show_nat 0 = ''0''"
  by (simp add: show_nat.simps digit_0)

lemmas end_to_end_defs = end_to_end_def a000_def time0_def end_to_end_objective_def
  end_to_end_constraints_def

lemma end_to_end_check: "check_shapes end_to_end = Inr ()"
  by (simp add: check_shapes_iff end_to_end_def numRiders_def numTimeSlices_def types_def
      Object_keys_def is_array_index_def is_digit_def)

lemma end_to_end_init:
  "init_locals end_to_end =
     \<lparr>objective = new_LinExpr,
      timeCounted = [new_Constraint ''timeCounted[0]'' (Some 0) None],
      haveEnoughRiders = [Some (new_Constraint ''enough[0]'' (Some 1) None)],
      haveEnoughRidersOfType = [(''bike'', [None])],
      disjointAllocations = [[Some (new_Constraint ''disjoint[0][0]'' None (Some 1))]],
      timeCoefficient = 0\<rparr>"
  by (simp add: init_locals_def end_to_end_def numRiders_def numTimeSlices_def types_def
      Object_keys_def is_array_index_def is_digit_def makeRecord_def show_nat_0)

lemma end_to_end_makeLP: "makeLP end_to_end = Inr (end_to_end_objective, end_to_end_constraints)"
  unfolding makeLP_def end_to_end_check and_then_Inr end_to_end_init
  by (simp add: loop_rider_def loop_t1_def loop_t2.simps add_candidate_def cover_def add_time_def
      all_constraints_def append_defined_def opt_setCoefficient_def eval_defs example_defs
      set_auxData_def candidate_name_def time_name_def show_nat_0 end_to_end_defs
      numRiders_def numTimeSlices_def types_def Let_def dadd_0_1)

subsection \<open>The input on which the rounding decides, evaluated\<close>

lemma digit_1: "digit (Suc 0) = CHR ''1''"
  unfolding digit_def by code_simp

lemma show_nat_1: "show_nat (Suc 0) = ''1''"
  by (simp add: show_nat.simps digit_1)

lemma dadd_rounding: "dadd 1 (3 / 2 ^ 54) = 1 + 1 / 2 ^ 52" "dadd 0 (3 / 2 ^ 54) = 3 / 2 ^ 54"
  using round_double_up round_double_small by (simp_all add: dadd_def)

lemmas rounding_defs = rounding_input_def a001_def time0_def rounding_objective_def
  rounding_constraints_def

lemma rounding_check: "check_shapes rounding_input = Inr ()"
  by (simp add: check_shapes_iff rounding_input_def numRiders_def numTimeSlices_def types_def
      Object_keys_def is_array_index_def is_digit_def)

lemma rounding_init:
  "init_locals rounding_input =
     \<lparr>objective = new_LinExpr,
      timeCounted = [new_Constraint ''timeCounted[0]'' (Some 0) None],
      haveEnoughRiders = [None, None],
      haveEnoughRidersOfType = [(''bike'', [None, None])],
      disjointAllocations = [[Some (new_Constraint ''disjoint[0][0]'' None (Some 1)),
                              Some (new_Constraint ''disjoint[0][1]'' None (Some 1))]],
      timeCoefficient = 0\<rparr>"
  by (simp add: init_locals_def rounding_input_def numRiders_def numTimeSlices_def types_def
      Object_keys_def is_array_index_def is_digit_def makeRecord_def show_nat_0 show_nat_1
      upt_rec)

lemma rounding_makeLP: "makeLP rounding_input = Inr (rounding_objective, rounding_constraints)"
  unfolding makeLP_def rounding_check and_then_Inr rounding_init
  using dadd_rounding
  by (simp add: loop_rider_def loop_t1_def loop_t2.simps add_candidate_def cover_def add_time_def
      all_constraints_def append_defined_def opt_setCoefficient_def eval_defs example_defs
      set_auxData_def candidate_name_def time_name_def show_nat_0 show_nat_1 rounding_defs
      numRiders_def numTimeSlices_def types_def Let_def dadd_0_1 upt_rec)

subsection \<open>Consequences for the candidates\<close>

lemma candidate_not_time_var: "candidate v r i j \<Longrightarrow> \<not> time_var inp v r'"
  by (simp add: candidate_def time_var_def)

lemma time_var_not_bool: "time_var inp v r \<Longrightarrow> \<not> isBool v"
  by (simp add: time_var_def isBool_def)

lemma built_candidate_iff:
  assumes "built inp obj cs"
  shows "(\<exists>v \<in> vars obj. candidate v r i j) = feasible inp r i j"
proof
  assume "\<exists>v \<in> vars obj. candidate v r i j"
  then obtain v where v: "v \<in> vars obj" "candidate v r i j" by blast
  with assms candidate_not_time_var [OF v(2)]
  obtain r' i' j' where f: "(r', i', j') \<in> feasible_set inp" and c: "candidate v r' i' j'"
    unfolding built_def by blast
  from candidate_unique [OF v(2) c] f show "feasible inp r i j"
    by (simp add: feasible_set_def)
next
  assume "feasible inp r i j"
  then have "(r, i, j) \<in> feasible_set inp" by (simp add: feasible_set_def)
  with assms show "\<exists>v \<in> vars obj. candidate v r i j"
    unfolding built_def by blast
qed

lemma built_bool:
  assumes "built inp obj cs" "v \<in> vars obj" "isBool v"
  shows "\<exists>r i j. candidate v r i j \<and> feasible inp r i j"
proof -
  from assms(1,2) consider (cand) r i j where "(r, i, j) \<in> feasible_set inp" "candidate v r i j"
    | (time) r where "time_var inp v r"
    unfolding built_def by blast
  then show ?thesis
  proof cases
    case cand
    then show ?thesis by (auto simp: feasible_set_def)
  next
    case time
    with assms(3) show ?thesis by (simp add: time_var_not_bool)
  qed
qed

subsection \<open>The shape rules and the checks\<close>

lemma check_shapes_rules:
  assumes "distinct (map fst (expectedOfType inp))"
  shows "(check_shapes inp = Inr ()) = shape_rules inp"
proof -
  have m: "\<And>k xs. (map_of (expectedOfType inp) k = Some xs) = ((k, xs) \<in> set (expectedOfType inp))"
    using assms by (simp add: map_of_eq_Some_iff)
  have "list_all (\<lambda>type. case map_of (expectedOfType inp) type of
                          Some xs \<Rightarrow> length xs = numTimeSlices inp | None \<Rightarrow> False) (types inp)
        = (\<forall>(type, xs) \<in> set (expectedOfType inp). length xs = numTimeSlices inp)"
  proof
    assume l: "list_all (\<lambda>type. case map_of (expectedOfType inp) type of
                          Some xs \<Rightarrow> length xs = numTimeSlices inp | None \<Rightarrow> False) (types inp)"
    show "\<forall>(type, xs) \<in> set (expectedOfType inp). length xs = numTimeSlices inp"
    proof (clarify)
      fix k xs assume kx: "(k, xs) \<in> set (expectedOfType inp)"
      then have "k \<in> set (types inp)" by (force simp: types_def Object_keys_set)
      with l have "case map_of (expectedOfType inp) k of
          Some xs \<Rightarrow> length xs = numTimeSlices inp | None \<Rightarrow> False"
        by (simp add: list_all_iff)
      moreover from kx m have "map_of (expectedOfType inp) k = Some xs" by simp
      ultimately show "length xs = numTimeSlices inp" by simp
    qed
  next
    assume a: "\<forall>(type, xs) \<in> set (expectedOfType inp). length xs = numTimeSlices inp"
    show "list_all (\<lambda>type. case map_of (expectedOfType inp) type of
                          Some xs \<Rightarrow> length xs = numTimeSlices inp | None \<Rightarrow> False) (types inp)"
      unfolding list_all_iff
    proof
      fix k assume "k \<in> set (types inp)"
      then obtain xs where kx: "(k, xs) \<in> set (expectedOfType inp)"
        by (auto simp: types_def Object_keys_set)
      with m have "map_of (expectedOfType inp) k = Some xs" by simp
      with a kx show "case map_of (expectedOfType inp) k of
          Some xs \<Rightarrow> length xs = numTimeSlices inp | None \<Rightarrow> False" by auto
    qed
  qed
  moreover have "\<And>k. (map_of (expectedOfType inp) k \<noteq> None) = (k \<in> fst ` set (expectedOfType inp))"
    by (simp add: map_of_eq_None_iff)
  ultimately show ?thesis
    unfolding check_shapes_iff shape_rules_def by (simp add: list_all_iff)
qed

lemma makeLP_check_failed: "check_shapes inp = Inl e \<Longrightarrow> makeLP inp = Inl e"
  by (simp add: makeLP_def and_then_def)

text \<open>
  The courier type \<^verbatim>\<open>constructor\<close> has no entry in the demand by type, and the input
  passes the checks all the same.
\<close>

lemma inherited_type_passes:
  "''constructor'' \<notin> fst ` set (expectedOfType inherited_type)
   \<and> check_shapes inherited_type = Inr ()"
  by (simp add: check_shapes_iff inherited_type_def end_to_end_def numRiders_def
      numTimeSlices_def types_def Object_keys_def is_array_index_def is_digit_def proto_member_def)

section \<open>solve: decoding a solution\<close>

lemma grid_shape_row: "grid_shape R T g \<Longrightarrow> r < R \<Longrightarrow> length (g ! r) = T"
  by (simp add: grid_shape_def list_all_length)

lemma assign_in_range:
  assumes "grid_shape R T g" "r < R" "t < T"
  shows "assign r t g = Inr (g[r := (g ! r)[t := Some True]])"
    and "grid_shape R T (g[r := (g ! r)[t := Some True]])"
proof -
  from assms have l: "length g = R" "length (g ! r) = T"
    by (simp_all add: grid_shape_row) (simp add: grid_shape_def)
  with assms(2,3) show "assign r t g = Inr (g[r := (g ! r)[t := Some True]])"
    by (simp add: assign_def write_cell_def)
  show "grid_shape R T (g[r := (g ! r)[t := Some True]])"
    unfolding grid_shape_def list_all_length
  proof (intro conjI allI impI)
    show "length (g[r := (g ! r)[t := Some True]]) = R" using l by simp
    fix n assume "n < length (g[r := (g ! r)[t := Some True]])"
    then have "n < R" using l by simp
    with grid_shape_row [OF assms(1)] l
    show "length (g[r := (g ! r)[t := Some True]] ! n) = T"
      by (cases "n = r") simp_all
  qed
qed

lemma foldM_assign:
  assumes "grid_shape R T g" "r < R" "\<forall>t \<in> set ts. t < T"
  shows "\<exists>g'. foldM (assign r) ts g = Inr g' \<and> grid_shape R T g'
           \<and> (\<forall>r' < R. \<forall>t' < T. g' ! r' ! t' =
                 (if r' = r \<and> t' \<in> set ts then Some True else g ! r' ! t'))"
  using assms
proof (induction ts arbitrary: g)
  case Nil
  then show ?case by simp
next
  case (Cons t ts)
  from Cons.prems(3) have t: "t < T" and ts: "\<forall>t \<in> set ts. t < T" by simp_all
  let ?g = "g[r := (g ! r)[t := Some True]]"
  note a = assign_in_range [OF Cons.prems(1,2) t]
  from Cons.IH [OF a(2) Cons.prems(2) ts]
  obtain g' where g': "foldM (assign r) ts ?g = Inr g'" "grid_shape R T g'"
      "\<forall>r' < R. \<forall>t' < T. g' ! r' ! t' =
         (if r' = r \<and> t' \<in> set ts then Some True else ?g ! r' ! t')" by blast
  from Cons.prems(1) have l: "length g = R" by (simp add: grid_shape_def)
  have cell: "\<forall>r' < R. \<forall>t' < T. ?g ! r' ! t' =
      (if r' = r \<and> t' = t then Some True else g ! r' ! t')"
  proof (intro allI impI)
    fix r' t' assume r': "r' < R" and t': "t' < T"
    from grid_shape_row [OF Cons.prems(1) r'] have "length (g ! r') = T" .
    with r' t' l show "?g ! r' ! t' = (if r' = r \<and> t' = t then Some True else g ! r' ! t')"
      by (cases "r' = r"; cases "t' = t") simp_all
  qed
  have "\<forall>r' < R. \<forall>t' < T. g' ! r' ! t' =
      (if r' = r \<and> t' \<in> set (t # ts) then Some True else g ! r' ! t')"
    using g'(3) cell by auto
  with g'(1,2) a(1) show ?case by (simp add: and_then_Inr)
qed

lemma decode_var_ok:
  assumes "grid_shape R T g" "\<forall>a. auxData v = Some a \<longrightarrow> rider a < R \<and> t2 a < T"
  shows "\<exists>g'. decode_var (v, c) g = Inr g' \<and> grid_shape R T g'
           \<and> (\<forall>r < R. \<forall>t < T. g' ! r ! t =
                 (if c > 0.5 \<and> covers v r t then Some True else g ! r ! t))"
proof (cases "auxData v")
  case None
  with assms(1) show ?thesis by (simp add: decode_var_def covers_def)
next
  case (Some a)
  show ?thesis
  proof (cases "c > 0.5")
    case False
    with Some assms(1) show ?thesis by (simp add: decode_var_def)
  next
    case True
    from assms(2) Some have r: "rider a < R" and j: "t2 a < T" by simp_all
    then have "\<forall>t \<in> set [t1 a..<Suc (t2 a)]. t < T" by auto
    from foldM_assign [OF assms(1) r this]
    obtain g' where g': "foldM (assign (rider a)) [t1 a..<Suc (t2 a)] g = Inr g'"
        "grid_shape R T g'"
        "\<forall>r' < R. \<forall>t' < T. g' ! r' ! t' =
           (if r' = rider a \<and> t' \<in> set [t1 a..<Suc (t2 a)] then Some True else g ! r' ! t')"
      by blast
    have m: "\<And>r t. covers v r t = (r = rider a \<and> t \<in> set [t1 a..<Suc (t2 a)])"
      using Some by (auto simp: covers_def)
    have "decode_var (v, c) g = Inr g'"
      using Some True g'(1) by (simp add: decode_var_def del: upt_Suc)
    with g'(2,3) True show ?thesis
      unfolding m by simp
  qed
qed

lemma foldM_decode_var:
  assumes "grid_shape R T g"
    and "\<forall>(v, c) \<in> set xs. \<forall>a. auxData v = Some a \<longrightarrow> rider a < R \<and> t2 a < T"
  shows "\<exists>g'. foldM decode_var xs g = Inr g' \<and> grid_shape R T g'
           \<and> (\<forall>r < R. \<forall>t < T. g' ! r ! t =
                 (if \<exists>(v, c) \<in> set xs. c > 0.5 \<and> covers v r t then Some True else g ! r ! t))"
  using assms
proof (induction xs arbitrary: g)
  case Nil
  then show ?case by simp
next
  case (Cons x xs)
  obtain v c where x: "x = (v, c)" by (cases x)
  from Cons.prems(2) have v: "\<forall>a. auxData v = Some a \<longrightarrow> rider a < R \<and> t2 a < T"
    and xs: "\<forall>(v, c) \<in> set xs. \<forall>a. auxData v = Some a \<longrightarrow> rider a < R \<and> t2 a < T"
    by (simp_all add: x)
  from decode_var_ok [OF Cons.prems(1) v, of c]
  obtain g1 where g1: "decode_var (v, c) g = Inr g1" "grid_shape R T g1"
      "\<forall>r < R. \<forall>t < T. g1 ! r ! t = (if c > 0.5 \<and> covers v r t then Some True else g ! r ! t)"
    by blast
  from Cons.IH [OF g1(2) xs]
  obtain g' where g': "foldM decode_var xs g1 = Inr g'" "grid_shape R T g'"
      "\<forall>r < R. \<forall>t < T. g' ! r ! t =
         (if \<exists>(v, c) \<in> set xs. c > 0.5 \<and> covers v r t then Some True else g1 ! r ! t)"
    by blast
  have "\<forall>r < R. \<forall>t < T. g' ! r ! t =
      (if \<exists>(v, c) \<in> set (x # xs). c > 0.5 \<and> covers v r t then Some True else g ! r ! t)"
    using g'(3) g1(3) by (simp add: x)
  with g'(1,2) g1(1) show ?case by (simp add: x and_then_Inr)
qed

lemma minimize_ok:
  assumes "wf_expr obj" "\<forall>c \<in> set cs. wf_expr c"
    and "inj_on Var.name (vars obj \<union> (\<Union>c \<in> set cs. vars c))"
  shows "\<exists>sat. saturate obj cs = Inr sat \<and> vars sat = (\<Union>c \<in> set cs. vars c) \<union> vars obj
           \<and> (solver (make_engine sat cs) = None \<longrightarrow> minimize solver obj cs = Inr None)
           \<and> (\<forall>sol. solver (make_engine sat cs) = Some sol \<longrightarrow>
                 (\<exists>e. minimize solver obj cs = Inr (Some e) \<and> wf_expr e \<and> vars e = vars sat
                       \<and> (\<forall>v \<in> vars e. coeff e v = Some (sol (Var.name v)))))"
proof -
  from saturate_result [OF assms] obtain sat where sat: "saturate obj cs = Inr sat"
      "wf_expr sat" "vars sat = (\<Union>c \<in> set cs. vars c) \<union> vars obj" by blast
  let ?xs = "getVarCoefficients sat"
  note xs = getVarCoefficients_props [OF sat(2)]
  have none: "solver (make_engine sat cs) = None \<longrightarrow> minimize solver obj cs = Inr None"
    by (simp add: minimize_def sat(1) and_then_Inr)
  have some: "\<forall>sol. solver (make_engine sat cs) = Some sol \<longrightarrow>
      (\<exists>e. minimize solver obj cs = Inr (Some e) \<and> wf_expr e \<and> vars e = vars sat
            \<and> (\<forall>v \<in> vars e. coeff e v = Some (sol (Var.name v))))"
  proof (intro allI impI)
    fix sol assume s: "solver (make_engine sat cs) = Some sol"
    have inj: "inj_on Var.name (vars (new_LinExpr :: 'a LinExpr) \<union> fst ` set ?xs)"
      unfolding new_LinExpr_vars xs(1) sat(3) using assms(3) by (simp add: Un_commute)
    have np: "\<forall>p \<in> set ?xs. \<not> proto_member (Var.name (fst p))"
      using xs(3) by auto
    from foldM_setCoefficient [OF new_LinExpr_wf xs(2) inj np,
        where g = "\<lambda>v _. sol (Var.name v)"]
    obtain e where e: "foldM (\<lambda>(v, _) e. setCoefficient e v (sol (Var.name v))) ?xs new_LinExpr
          = Inr e" "wf_expr e" "vars e = vars new_LinExpr \<union> fst ` set ?xs"
        "\<forall>(v, c) \<in> set ?xs. coeff e v = Some (sol (Var.name v))"
      by blast
    have ve: "vars e = vars sat" using e(3) by (simp add: new_LinExpr_vars xs(1))
    have "\<forall>v \<in> vars e. coeff e v = Some (sol (Var.name v))"
    proof
      fix v assume "v \<in> vars e"
      then obtain c where "(v, c) \<in> set ?xs" unfolding ve xs(1) [symmetric] by auto
      with e(4) show "coeff e v = Some (sol (Var.name v))" by auto
    qed
    moreover have "minimize solver obj cs = Inr (Some e)"
      by (simp add: minimize_def sat(1) and_then_Inr s e(1))
    ultimately show "\<exists>e. minimize solver obj cs = Inr (Some e) \<and> wf_expr e \<and> vars e = vars sat
            \<and> (\<forall>v \<in> vars e. coeff e v = Some (sol (Var.name v)))"
      using e(2) ve by blast
  qed
  show ?thesis
    by (rule exI [of _ sat]) (intro conjI sat(1) sat(3) none some)
qed

lemma built_in_range:
  assumes "built inp obj cs" "v \<in> vars obj" "auxData v = Some a"
  shows "feasible inp (rider a) (t1 a) (t2 a)"
proof -
  from assms(1,2) consider (cand) r i j where "(r, i, j) \<in> feasible_set inp" "candidate v r i j"
    | (time) r where "time_var inp v r"
    unfolding built_def by blast
  then show ?thesis
  proof cases
    case cand
    with assms(3) show ?thesis by (auto simp: feasible_set_def candidate_def)
  next
    case time
    with assms(3) show ?thesis by (simp add: time_var_def)
  qed
qed

lemma initial_grid:
  "grid_shape (numRiders inp) (numTimeSlices inp)
     (map (\<lambda>_. map (\<lambda>_. Some False) (expected inp)) (guaranteed inp))"
  by (simp add: grid_shape_def numRiders_def numTimeSlices_def list_all_iff)

lemma solve_grid:
  assumes b: "built inp obj cs"
  shows "\<exists>sat. saturate obj cs = Inr sat
           \<and> (solver (make_engine sat cs) = None \<longrightarrow> solve solver inp obj cs = Inr None)
           \<and> (\<forall>sol. solver (make_engine sat cs) = Some sol \<longrightarrow>
                 (\<exists>grid. solve solver inp obj cs = Inr (Some grid)
                    \<and> grid_shape (numRiders inp) (numTimeSlices inp) grid
                    \<and> (\<forall>r < numRiders inp. \<forall>t < numTimeSlices inp.
                          grid ! r ! t = Some (\<exists>v \<in> vars obj. sol (Var.name v) > 0.5 \<and> covers v r t))))"
proof -
  from b have wf: "wf_expr obj" "\<forall>c \<in> set cs. wf_expr c"
    and sub: "\<forall>c \<in> set cs. vars c \<subseteq> vars obj" and inj0: "inj_on Var.name (vars obj)"
    unfolding built_def by blast+
  from sub have un: "vars obj \<union> (\<Union>c \<in> set cs. vars c) = vars obj" by blast
  then have un': "(\<Union>c \<in> set cs. vars c) \<union> vars obj = vars obj" by blast
  have inj: "inj_on Var.name (vars obj \<union> (\<Union>c \<in> set cs. vars c))"
    unfolding un by (rule inj0)
  from minimize_ok [OF wf inj, of solver]
  obtain sat where sat: "saturate obj cs = Inr sat" "vars sat = vars obj"
      "solver (make_engine sat cs) = None \<longrightarrow> minimize solver obj cs = Inr None"
      "\<forall>sol. solver (make_engine sat cs) = Some sol \<longrightarrow>
         (\<exists>e. minimize solver obj cs = Inr (Some e) \<and> wf_expr e \<and> vars e = vars sat
               \<and> (\<forall>v \<in> vars e. coeff e v = Some (sol (Var.name v))))"
    unfolding un' by (elim exE conjE)
  have none: "solver (make_engine sat cs) = None \<longrightarrow> solve solver inp obj cs = Inr None"
    using sat(3) by (simp add: solve_def and_then_Inr)
  have some: "\<forall>sol. solver (make_engine sat cs) = Some sol \<longrightarrow>
      (\<exists>grid. solve solver inp obj cs = Inr (Some grid)
         \<and> grid_shape (numRiders inp) (numTimeSlices inp) grid
         \<and> (\<forall>r < numRiders inp. \<forall>t < numTimeSlices inp.
               grid ! r ! t = Some (\<exists>v \<in> vars obj. sol (Var.name v) > 0.5 \<and> covers v r t)))"
  proof (intro allI impI)
    fix sol assume "solver (make_engine sat cs) = Some sol"
    with sat(4) obtain e where e: "minimize solver obj cs = Inr (Some e)" "wf_expr e"
        "vars e = vars sat" "\<forall>v \<in> vars e. coeff e v = Some (sol (Var.name v))" by blast
    let ?xs = "getVarCoefficients e"
    let ?g0 = "map (\<lambda>_. map (\<lambda>_. Some False) (expected inp)) (guaranteed inp)"
    note xs = getVarCoefficients_props [OF e(2)]
    have ve: "vars e = vars obj" using e(3) sat(2) by simp
    have val: "\<And>v c. (v, c) \<in> set ?xs \<Longrightarrow> v \<in> vars obj \<and> c = sol (Var.name v)"
    proof -
      fix v c assume vc: "(v, c) \<in> set ?xs"
      then have "v \<in> vars e" unfolding xs(1) [symmetric] by force
      with e(4) xs(4) [OF vc] ve show "v \<in> vars obj \<and> c = sol (Var.name v)" by auto
    qed
    have range: "\<forall>(v, c) \<in> set ?xs. \<forall>a. auxData v = Some a \<longrightarrow>
        rider a < numRiders inp \<and> t2 a < numTimeSlices inp"
    proof (clarify)
      fix v c a assume "(v, c) \<in> set ?xs" "auxData v = Some a"
      with val have "feasible inp (rider a) (t1 a) (t2 a)"
        using built_in_range [OF b] by blast
      then show "rider a < numRiders inp \<and> t2 a < numTimeSlices inp"
        by (simp add: feasible_def)
    qed
    from foldM_decode_var [OF initial_grid range]
    obtain grid where grid: "foldM decode_var ?xs ?g0 = Inr grid"
        "grid_shape (numRiders inp) (numTimeSlices inp) grid"
        "\<forall>r < numRiders inp. \<forall>t < numTimeSlices inp. grid ! r ! t =
           (if \<exists>(v, c) \<in> set ?xs. c > 0.5 \<and> covers v r t then Some True else ?g0 ! r ! t)"
      by blast
    have ex: "\<And>r t. (\<exists>(v, c) \<in> set ?xs. c > 0.5 \<and> covers v r t)
        = (\<exists>v \<in> vars obj. sol (Var.name v) > 0.5 \<and> covers v r t)"
    proof
      fix r t assume "\<exists>(v, c) \<in> set ?xs. c > 0.5 \<and> covers v r t"
      then obtain v c where "(v, c) \<in> set ?xs" "c > 0.5" "covers v r t" by blast
      with val [OF this(1)] show "\<exists>v \<in> vars obj. sol (Var.name v) > 0.5 \<and> covers v r t"
        by blast
    next
      fix r t assume "\<exists>v \<in> vars obj. sol (Var.name v) > 0.5 \<and> covers v r t"
      then obtain v where v: "v \<in> vars obj" "sol (Var.name v) > 0.5" "covers v r t" by blast
      from v(1) obtain c where c: "(v, c) \<in> set ?xs"
        unfolding ve [symmetric] xs(1) [symmetric] by auto
      with val [OF c] v show "\<exists>(v, c) \<in> set ?xs. c > 0.5 \<and> covers v r t" by blast
    qed
    have "\<forall>r < numRiders inp. \<forall>t < numTimeSlices inp.
        grid ! r ! t = Some (\<exists>v \<in> vars obj. sol (Var.name v) > 0.5 \<and> covers v r t)"
    proof (intro allI impI)
      fix r t assume r: "r < numRiders inp" and t: "t < numTimeSlices inp"
      then have "?g0 ! r ! t = Some False"
        by (simp add: numRiders_def numTimeSlices_def)
      with grid(3) r t ex [of r t]
      show "grid ! r ! t = Some (\<exists>v \<in> vars obj. sol (Var.name v) > 0.5 \<and> covers v r t)"
        by simp
    qed
    moreover have "solve solver inp obj cs = Inr (Some grid)"
      by (simp add: solve_def e(1) and_then_Inr grid(1))
    ultimately show "\<exists>grid. solve solver inp obj cs = Inr (Some grid)
         \<and> grid_shape (numRiders inp) (numTimeSlices inp) grid
         \<and> (\<forall>r < numRiders inp. \<forall>t < numTimeSlices inp.
               grid ! r ! t = Some (\<exists>v \<in> vars obj. sol (Var.name v) > 0.5 \<and> covers v r t))"
      using grid(2) by blast
  qed
  show ?thesis
    by (rule exI [of _ sat]) (intro conjI sat(1) none some)
qed

lemma makeLP_built:
  assumes "makeLP inp = Inr (obj, cs)"
  shows "built inp obj cs"
proof -
  have "check_shapes inp = Inr ()"
  proof (rule ccontr)
    assume "check_shapes inp \<noteq> Inr ()"
    with check_shapes_result [of inp] have "check_shapes inp = Inl (Error [])" by blast
    from makeLP_check_failed [OF this] assms show False by simp
  qed
  from makeLP_result [OF this] assms show ?thesis by auto
qed

lemma end_to_end_vars: "vars end_to_end_objective = {a000, time0}"
  by (auto simp: end_to_end_defs eval_defs example_defs set_auxData_def)

lemma end_to_end_saturate:
  "saturate end_to_end_objective end_to_end_constraints = Inr end_to_end_objective"
  by (simp add: end_to_end_defs eval_defs example_defs set_auxData_def)

lemma end_to_end_solve:
  "solve (\<lambda>_. Some (\<lambda>_. 1)) end_to_end end_to_end_objective end_to_end_constraints
     = Inr (Some [[Some True]])"
  by (simp add: solve_def minimize_def end_to_end_saturate and_then_Inr)
    (simp add: end_to_end_defs eval_defs example_defs set_auxData_def decode_var_def assign_def
      write_cell_def)

lemma covers_a000: "covers a000 0 0"
  by (simp add: covers_def a000_def set_auxData_def)

section \<open>The weight of the time variables\<close>

text \<open>
  The weight of the time variables is the number of feasible triples, one candidate
  variable each.
\<close>

lemma time_weight_is_count:
  assumes "check_shapes inp = Inr ()"
  shows "\<exists>obj cs. makeLP inp = Inr (obj, cs)
           \<and> (\<forall>r < numRiders inp. \<exists>v \<in> vars obj. time_var inp v r
                 \<and> coeff obj v = Some (real (card (feasible_set inp))))"
proof -
  from makeLP_result [OF assms] obtain obj cs where
    m: "makeLP inp = Inr (obj, cs)" and b: "built inp obj cs" by blast
  have "\<forall>r < numRiders inp. \<exists>v \<in> vars obj. time_var inp v r
      \<and> coeff obj v = Some (real (card (feasible_set inp)))"
  proof (intro allI impI)
    fix r assume "r < numRiders inp"
    with b obtain v where v: "v \<in> vars obj" "time_var inp v r"
      unfolding built_def by blast
    with b candidate_not_time_var [of v _ _ _ inp r]
    obtain r' where "time_var inp v r'" "coeff obj v = Some (real (card (feasible_set inp)))"
      unfolding built_def by blast
    with v show "\<exists>v \<in> vars obj. time_var inp v r
      \<and> coeff obj v = Some (real (card (feasible_set inp)))" by blast
  qed
  with m show ?thesis by blast
qed

text \<open>
  Without any candidate the weight is 0: the objective does not mention the time of
  the courier at all, whatever the guaranteed time.
\<close>

lemma never_available_makeLP:
  "makeLP never_available =
     Inr (\<lparr>terms = [(''time[0]'', RealVar 0 ''time[0]'' (Some 5) None, 0)]\<rparr>,
          [\<lparr>terms = [(''time[0]'', RealVar 0 ''time[0]'' (Some 5) None, 1)],
            name = ''timeCounted[0]'', lowerBound = Some 0, upperBound = None\<rparr>])"
proof -
  have c: "check_shapes never_available = Inr ()"
    by (simp add: check_shapes_iff never_available_def numRiders_def numTimeSlices_def types_def
        Object_keys_def is_array_index_def is_digit_def)
  have i: "init_locals never_available =
     \<lparr>objective = new_LinExpr,
      timeCounted = [new_Constraint ''timeCounted[0]'' (Some 0) None],
      haveEnoughRiders = [None],
      haveEnoughRidersOfType = [(''bike'', [None])],
      disjointAllocations = [[None]],
      timeCoefficient = 0\<rparr>"
    by (simp add: init_locals_def never_available_def numRiders_def numTimeSlices_def types_def
        Object_keys_def is_array_index_def is_digit_def makeRecord_def show_nat_0)
  show ?thesis
    unfolding makeLP_def c and_then_Inr i
    by (simp add: loop_rider_def loop_t1_def loop_t2.simps add_time_def
        all_constraints_def append_defined_def eval_defs example_defs
        time_name_def show_nat_0 never_available_def
        numRiders_def numTimeSlices_def types_def Let_def)
qed

section \<open>exportAsLP: the text\<close>

lemma join_Cons: "join sep (x # xs) = x @ concat (map (\<lambda>y. sep @ y) xs)"
  by (induction xs arbitrary: x) simp_all

lemma term_text_first:
  "term_text num 0 v c = (if c < 0 then ''- '' else []) @ spec_coeff num c @ Var.name v"
  by (simp add: term_text_def spec_coeff_def Let_def)

lemma term_text_later:
  "0 < i \<Longrightarrow> '' '' @ term_text num i v c
     = (if c < 0 then '' - '' else '' + '') @ spec_coeff num c @ Var.name v"
  by (simp add: term_text_def spec_coeff_def Let_def)

lemma later_terms:
  "0 < n \<Longrightarrow> concat (map (\<lambda>y. '' '' @ y) (map (\<lambda>(i, v, c). term_text num i v c) (enumerate n xs)))
     = spec_rest num xs"
proof (induction xs arbitrary: n)
  case Nil
  then show ?case by simp
next
  case (Cons x xs)
  obtain v c where x: "x = (v, c)" by (cases x)
  from Cons.IH [of "Suc n"] term_text_later [OF Cons.prems, of num v c] show ?case
    by (simp add: x)
qed

lemma toString_spec: "toString num e = spec_terms num (getVarCoefficients e)"
proof (cases "getVarCoefficients e")
  case Nil
  then show ?thesis by (simp add: toString_def)
next
  case (Cons x xs)
  obtain v c where x: "x = (v, c)" by (cases x)
  from later_terms [of 1 num xs] show ?thesis
    by (simp add: toString_def Cons x join_Cons term_text_first del: join.simps)
qed

lemma toLP_spec: "toLP num c @ '';\<newline>'' = spec_line num c"
  by (simp add: toLP_def Constraint_toString_def Let_def spec_line_def spec_bounded_def
      toString_spec split: option.splits)

lemma Object_keys_single: "Object_keys [(k, x)] = [k]"
  by (simp add: Object_keys_def)

lemma toConstraint_ok:
  assumes "\<not> proto_member (Var.name v)"
  shows "\<exists>c. toConstraint v = Inr c \<and> toLP num c @ '';\<newline>'' = spec_bound_line num v"
proof -
  let ?c0 = "new_Constraint (''c['' @ Var.name v @ '']'') (Var.lowerBound v) (Var.upperBound v)
               :: 'a Constraint"
  let ?c = "?c0\<lparr>terms := AList.update (Var.name v) (v, 1) (terms ?c0)\<rparr>"
  have "toConstraint v = Inr ?c"
    unfolding toConstraint_def
    by (rule setCoefficient_ok [OF new_Constraint_wf assms]) (simp add: new_Constraint_vars)
  moreover have "getVarCoefficients ?c = [(v, 1)]"
    by (simp add: getVarCoefficients_def new_Constraint_def Object_keys_single)
  then have "spec_line num ?c = spec_bound_line num v"
    by (simp add: spec_line_def spec_bound_line_def new_Constraint_def spec_coeff_def)
  ultimately show ?thesis by (simp add: toLP_spec)
qed

lemma mapM_toConstraint:
  assumes "\<forall>v \<in> set vs. \<not> proto_member (Var.name v)"
  shows "\<exists>cv. mapM toConstraint vs = Inr cv
           \<and> concat (map (\<lambda>c. toLP num c @ '';\<newline>'') cv) = concat (map (spec_bound_line num) vs)"
  using assms
proof (induction vs)
  case Nil
  then show ?case by simp
next
  case (Cons v vs)
  from Cons.prems have "\<not> proto_member (Var.name v)" by simp
  from toConstraint_ok [OF this, of num] obtain c where
    c: "toConstraint v = Inr c" "toLP num c @ '';\<newline>'' = spec_bound_line num v" by blast
  from Cons.IH Cons.prems obtain cv where
    cv: "mapM toConstraint vs = Inr cv"
      "concat (map (\<lambda>c. toLP num c @ '';\<newline>'') cv) = concat (map (spec_bound_line num) vs)"
    by auto
  show ?case
    by (rule exI [of _ "c # cv"]) (simp add: c cv and_then_Inr del: append_assoc)
qed

lemma exportAsLP_spec:
  assumes "wf_expr obj" "\<forall>c \<in> set cs. wf_expr c"
    and "inj_on Var.name (vars obj \<union> (\<Union>c \<in> set cs. vars c))"
  shows "\<exists>sat. saturate obj cs = Inr sat
           \<and> exportAsLP num obj cs
               = Inr (spec_export num (map fst (getVarCoefficients sat)) obj cs)"
proof -
  from saturate_result [OF assms] obtain sat where sat: "saturate obj cs = Inr sat"
      "wf_expr sat" by blast
  let ?vs = "map fst (getVarCoefficients sat)"
  let ?cvs = "filter bounded (filter (\<lambda>v. \<not> isBool v) ?vs)"
  have np: "\<forall>v \<in> set ?cvs. \<not> proto_member (Var.name v)"
    using getVarCoefficients_props(3) [OF sat(2)] by auto
  from mapM_toConstraint [OF np, of num] obtain cv where
    cv: "mapM toConstraint ?cvs = Inr cv"
      "concat (map (\<lambda>c. toLP num c @ '';\<newline>'') cv) = concat (map (spec_bound_line num) ?cvs)"
    by blast
  have f: "?cvs = filter (\<lambda>v. \<not> isBool v \<and> bounded v) ?vs"
    by (simp add: conj_commute)
  have lines: "concat (map (\<lambda>c. toLP num c @ '';\<newline>'') cs) = concat (map (spec_line num) cs)"
    by (simp add: toLP_spec)
  have "exportAsLP num obj cs = Inr (spec_export num ?vs obj cs)"
    unfolding exportAsLP_def sat(1) and_then_Inr Let_def cv(1) spec_export_def
    by (simp add: toString_spec cv(2) lines f spec_decl_def del: filter_filter)
  with sat(1) show ?thesis by blast
qed

lemma exportAsLP_clash: "saturate obj cs = Inl e \<Longrightarrow> exportAsLP num obj cs = Inl e"
  by (simp add: exportAsLP_def and_then_def)

lemma num_example_0_1: "num_example 0 = ''0''" "num_example 1 = ''1''"
  by (simp_all add: num_example_def show_nat.simps digit_0 digit_1)

lemma digit_2: "digit 2 = CHR ''2''"
  unfolding digit_def by code_simp

lemma num_example_2: "num_example 2 = ''2''"
  by (simp add: num_example_def show_nat.simps digit_2)

lemma end_to_end_wf:
  "wf_expr end_to_end_objective" "list_all wf_expr end_to_end_constraints"
  by (simp_all add: end_to_end_defs eval_defs example_defs set_auxData_def)

lemma end_to_end_inj:
  "inj_on Var.name (vars end_to_end_objective \<union> (\<Union>c \<in> set end_to_end_constraints. vars c))"
proof -
  have "(\<Union>c \<in> set end_to_end_constraints. vars c) \<subseteq> {a000, time0}"
    by (auto simp: end_to_end_defs eval_defs example_defs set_auxData_def)
  then have "vars end_to_end_objective \<union> (\<Union>c \<in> set end_to_end_constraints. vars c) = {a000, time0}"
    unfolding end_to_end_vars by blast
  moreover have "inj_on Var.name {a000, time0}"
    by (simp add: inj_on_def end_to_end_defs example_defs set_auxData_def)
  ultimately show ?thesis by simp
qed

section \<open>The claims\<close>

text \<open>
  C1. The weight \<open>K\<close> of the time variables is the number of candidates, and it is
  meant to be strictly greater than every sum of candidate terms that the constraints
  allow. In the end-to-end example the weight of \<^verbatim>\<open>time[0]\<close> is 1, the number of
  candidates, and the assignment that sets every variable to 1 satisfies all
  constraints and bounds; the candidate terms then add up to 1, which is not strictly
  less than the weight.
\<close>

theorem priority_weight_not_strict:
  "makeLP end_to_end = Inr (end_to_end_objective, end_to_end_constraints)
   \<and> coeff end_to_end_objective time0 = Some 1
   \<and> achievable (\<lambda>_. 1) end_to_end_objective end_to_end_constraints
   \<and> candidate_sum (\<lambda>_. 1) end_to_end_objective = 1
   \<and> \<not> candidate_sum (\<lambda>_. 1) end_to_end_objective < 1"
  by (simp add: end_to_end_makeLP)
    (simp add: end_to_end_defs eval_defs example_defs set_auxData_def achievable_def satisfied_def
      in_domain_def eval_expr_def candidate_sum_def isReal_def)

text \<open>
  C2 (as amended). For every input that passes the shape checks, \<^verbatim>\<open>makeLP\<close> returns,
  and the objective holds a candidate variable \<^verbatim>\<open>a[r][i..j]\<close> exactly for the triples
  with \<open>r\<close> a rider, \<open>i \<le> j\<close> slots, \<open>r\<close> available at every slot of \<open>[i, j]\<close> and
  the accumulated duration of the range at least \<^verbatim>\<open>minDuration\<close>. The accumulated
  duration is the running sum of the loop (\<open>run_sum\<close>): the durations of the slots
  \<open>i, ..., j\<close> added one by one as doubles, every addition rounded. Every boolean
  variable is such a candidate, and the constraints mention no further variable.
\<close>

theorem makeLP_candidates:
  assumes "check_shapes inp = Inr ()"
  shows "\<exists>obj cs. makeLP inp = Inr (obj, cs)
           \<and> (\<forall>r i j. (\<exists>v \<in> vars obj. candidate v r i j) = feasible inp r i j)
           \<and> (\<forall>v \<in> vars obj. isBool v \<longrightarrow> (\<exists>r i j. candidate v r i j \<and> feasible inp r i j))
           \<and> (\<forall>c \<in> set cs. vars c \<subseteq> vars obj)"
proof -
  from makeLP_result [OF assms] obtain obj cs where
    m: "makeLP inp = Inr (obj, cs)" and b: "built inp obj cs" by blast
  have "\<forall>r i j. (\<exists>v \<in> vars obj. candidate v r i j) = feasible inp r i j"
    using built_candidate_iff [OF b] by blast
  moreover have "\<forall>v \<in> vars obj. isBool v \<longrightarrow> (\<exists>r i j. candidate v r i j \<and> feasible inp r i j)"
    using built_bool [OF b] by blast
  moreover have "\<forall>c \<in> set cs. vars c \<subseteq> vars obj"
    using b unfolding built_def by blast
  ultimately show ?thesis using m by blast
qed

theorem makeLP_candidates_witness:
  "check_shapes rounding_input = Inr () \<and> feasible rounding_input 0 0 1
   \<and> (\<exists>obj cs. makeLP rounding_input = Inr (obj, cs) \<and> (\<exists>v \<in> vars obj. candidate v 0 0 1))"
proof -
  have "run_sum rounding_input 0 (Suc 1) = 1 + 1 / 2 ^ 52"
    using dadd_rounding(1) by (simp add: run_sum_def rounding_input_def dadd_0_1 upt_rec)
  moreover have "minDuration rounding_input = 1 + 1 / 2 ^ 52"
    "numRiders rounding_input = 1" "numTimeSlices rounding_input = 2"
    by (simp_all add: rounding_input_def numRiders_def numTimeSlices_def)
  moreover have "\<forall>t \<in> {0..1::nat}. available rounding_input ! t ! 0"
    by (auto simp: rounding_input_def nth_Cons')
  ultimately have f: "feasible rounding_input 0 0 1"
    unfolding feasible_def by simp
  from makeLP_candidates [OF rounding_check] obtain obj cs where
    "makeLP rounding_input = Inr (obj, cs)"
    "\<forall>r i j. (\<exists>v \<in> vars obj. candidate v r i j) = feasible rounding_input r i j"
    by blast
  with f have "\<exists>obj cs. makeLP rounding_input = Inr (obj, cs) \<and> (\<exists>v \<in> vars obj. candidate v 0 0 1)"
    by blast
  with f rounding_check show ?thesis by simp
qed

text \<open>
  The sum of the durations in the real numbers does not decide. On \<open>rounding_input\<close>
  the courier is available at both slots and the durations of the range \<open>[0, 1]\<close> add
  up to \<open>1 + 3 / 2 ^ 54\<close>, which is less than \<^verbatim>\<open>minDuration\<close> \<open>= 1 + 1 / 2 ^ 52\<close>;
  \<^verbatim>\<open>makeLP\<close> creates \<^verbatim>\<open>a[0][0..1]\<close> all the same, since the sum of the doubles \<open>1\<close> and
  \<open>3 / 2 ^ 54\<close> is the double \<open>1 + 1 / 2 ^ 52\<close>.
\<close>

theorem makeLP_rounding_counterexample:
  "check_shapes rounding_input = Inr ()
   \<and> available rounding_input ! 0 ! 0 \<and> available rounding_input ! 1 ! 0
   \<and> exact_sum rounding_input 0 1 < minDuration rounding_input
   \<and> makeLP rounding_input = Inr (rounding_objective, rounding_constraints)
   \<and> a001 \<in> vars rounding_objective \<and> candidate a001 0 0 1"
proof -
  have "exact_sum rounding_input 0 1 < minDuration rounding_input"
    by (simp add: exact_sum_def rounding_input_def)
  moreover have "a001 \<in> vars rounding_objective" "candidate a001 0 0 1"
    by (simp_all add: rounding_defs eval_defs example_defs set_auxData_def candidate_def
        candidate_name_def show_nat_0 show_nat_1 isBool_def isInt_def isReal_def)
  moreover have "available rounding_input ! 0 ! 0" "available rounding_input ! 1 ! 0"
    by (simp_all add: rounding_input_def)
  ultimately show ?thesis using rounding_check rounding_makeLP by simp
qed

text \<open>
  C3. For one slot of duration 1 with demand 1, one available courier of type
  \<^verbatim>\<open>bike\<close> with demand by type 0, guaranteed 0 and \<^verbatim>\<open>minDuration\<close> 1, \<^verbatim>\<open>makeLP\<close>
  builds the boolean candidate \<^verbatim>\<open>a[0][0..0]\<close>, the continuous \<^verbatim>\<open>time[0]\<close> bounded
  below by 0 and not above, and the three constraints \<^verbatim>\<open>timeCounted[0]\<close>,
  \<^verbatim>\<open>enough[0]\<close> and \<^verbatim>\<open>disjoint[0][0]\<close> with the bounds and coefficients of
  \<open>end_to_end_constraints\<close>, and nothing else.
\<close>

theorem makeLP_end_to_end:
  "makeLP end_to_end = Inr (end_to_end_objective, end_to_end_constraints)
   \<and> vars end_to_end_objective = {a000, time0}
   \<and> isBool a000 \<and> Var.name a000 = ''a[0][0..0]''
   \<and> isReal time0 \<and> Var.name time0 = ''time[0]''
   \<and> Var.lowerBound time0 = Some 0 \<and> Var.upperBound time0 = None
   \<and> map (\<lambda>c. (name c, lowerBound c, upperBound c, map (\<lambda>(v, k). (Var.name v, k)) (getVarCoefficients c)))
        end_to_end_constraints =
      [(''timeCounted[0]'', Some 0, None, [(''a[0][0..0]'', - 1), (''time[0]'', 1)]),
       (''enough[0]'', Some 1, None, [(''a[0][0..0]'', 1)]),
       (''disjoint[0][0]'', None, Some 1, [(''a[0][0..0]'', 1)])]"
  by (simp add: end_to_end_makeLP)
    (auto simp: end_to_end_defs eval_defs example_defs set_auxData_def isBool_def isReal_def)

text \<open>
  C4 (as amended). For every input that breaks a shape rule (inconsistent array
  lengths, a negative duration, a demand outside \<open>[0, R]\<close>, or a courier whose type has
  no entry in the demand by type and is not the name of an inherited member),
  \<^verbatim>\<open>makeLP\<close> throws a plain \<^verbatim>\<open>Error\<close> whose message is empty; it is the shape check
  that throws, which comes before any variable or constraint is created.
\<close>

theorem makeLP_rejects:
  assumes "distinct (map fst (expectedOfType inp))" "\<not> shape_rules inp"
  shows "check_shapes inp = Inl (Error []) \<and> makeLP inp = Inl (Error [])"
proof -
  from assms have "check_shapes inp \<noteq> Inr ()"
    by (simp add: check_shapes_rules)
  with check_shapes_result [of inp] have "check_shapes inp = Inl (Error [])" by blast
  then show ?thesis by (simp add: makeLP_check_failed)
qed

theorem makeLP_rejects_witness:
  "distinct (map fst (expectedOfType excess_demand)) \<and> \<not> shape_rules excess_demand
   \<and> check_shapes excess_demand = Inl (Error []) \<and> makeLP excess_demand = Inl (Error [])"
proof -
  have d: "distinct (map fst (expectedOfType excess_demand))"
    by (simp add: excess_demand_def end_to_end_def)
  have n: "\<not> shape_rules excess_demand"
    by (simp add: shape_rules_def excess_demand_def end_to_end_def numRiders_def)
  from makeLP_rejects [OF d n] d n show ?thesis by simp
qed

theorem makeLP_no_message_counterexample:
  "\<not> shape_rules negative_duration \<and> makeLP negative_duration = Inl (Error [])"
proof -
  have d: "distinct (map fst (expectedOfType negative_duration))"
    by (simp add: negative_duration_def end_to_end_def)
  have n: "\<not> shape_rules negative_duration"
    by (simp add: shape_rules_def negative_duration_def end_to_end_def)
  have "check_shapes negative_duration \<noteq> Inr ()"
    using n by (simp add: check_shapes_rules [OF d])
  with check_shapes_result [of negative_duration]
  have "check_shapes negative_duration = Inl (Error [])" by blast
  with n show ?thesis by (simp add: makeLP_check_failed)
qed

text \<open>
  C5. When the solver returns a solution \<open>sol\<close>, \<^verbatim>\<open>solve\<close> returns a grid of \<open>R\<close>
  rows of \<open>T\<close> booleans in which cell \<open>(r, t)\<close> is true exactly when some variable
  whose auxiliary data is a triple \<open>(r, t1, t2)\<close> with \<open>t1 \<le> t \<le> t2\<close> has a value
  strictly greater than 0.5; every other cell is false, and variables without
  auxiliary data, such as \<^verbatim>\<open>time[r]\<close>, play no part.
\<close>

theorem solve_decodes:
  assumes "makeLP inp = Inr (obj, cs)"
  shows "\<exists>sat. saturate obj cs = Inr sat
           \<and> (\<forall>sol. solver (make_engine sat cs) = Some sol \<longrightarrow>
                 (\<exists>grid. solve solver inp obj cs = Inr (Some grid)
                    \<and> grid_shape (numRiders inp) (numTimeSlices inp) grid
                    \<and> (\<forall>r < numRiders inp. \<forall>t < numTimeSlices inp.
                          grid ! r ! t = Some (\<exists>v \<in> vars obj. sol (Var.name v) > 0.5 \<and> covers v r t))))"
proof -
  from solve_grid [OF makeLP_built [OF assms], of solver] obtain sat where
    "saturate obj cs = Inr sat"
    "\<forall>sol. solver (make_engine sat cs) = Some sol \<longrightarrow>
       (\<exists>grid. solve solver inp obj cs = Inr (Some grid)
          \<and> grid_shape (numRiders inp) (numTimeSlices inp) grid
          \<and> (\<forall>r < numRiders inp. \<forall>t < numTimeSlices inp.
                grid ! r ! t = Some (\<exists>v \<in> vars obj. sol (Var.name v) > 0.5 \<and> covers v r t)))"
    by (elim exE conjE)
  then show ?thesis by (intro exI [of _ sat] conjI)
qed

theorem solve_decodes_witness:
  "makeLP end_to_end = Inr (end_to_end_objective, end_to_end_constraints)
   \<and> (\<exists>grid. solve (\<lambda>_. Some (\<lambda>_. 0.500001)) end_to_end end_to_end_objective
                end_to_end_constraints = Inr (Some grid) \<and> grid ! 0 ! 0 = Some True)
   \<and> (\<exists>grid. solve (\<lambda>_. Some (\<lambda>_. 0.5)) end_to_end end_to_end_objective
                end_to_end_constraints = Inr (Some grid) \<and> grid ! 0 ! 0 = Some False)"
proof -
  have d: "0 < numRiders end_to_end" "0 < numTimeSlices end_to_end"
    by (simp_all add: end_to_end_def numRiders_def numTimeSlices_def)
  have "\<exists>grid. solve (\<lambda>_. Some (\<lambda>_. c)) end_to_end end_to_end_objective
                end_to_end_constraints = Inr (Some grid)
          \<and> grid ! 0 ! 0 = Some (\<exists>v \<in> vars end_to_end_objective. c > 0.5 \<and> covers v 0 0)" for c
    using solve_decodes [OF end_to_end_makeLP, of "\<lambda>_. Some (\<lambda>_. c)"] d by fastforce
  from this [of "0.500001"] this [of "0.5"] covers_a000 show ?thesis
    by (simp add: end_to_end_makeLP end_to_end_vars)
qed

text \<open>
  C6. When the solver reports no solution, \<^verbatim>\<open>solve\<close> returns the absent result: no
  grid is returned, and in particular no all-false grid.
\<close>

theorem solve_no_solution:
  assumes "makeLP inp = Inr (obj, cs)"
  shows "\<exists>sat. saturate obj cs = Inr sat
           \<and> (solver (make_engine sat cs) = None \<longrightarrow> solve solver inp obj cs = Inr None)"
proof -
  from solve_grid [OF makeLP_built [OF assms], of solver] obtain sat where
    "saturate obj cs = Inr sat"
    "solver (make_engine sat cs) = None \<longrightarrow> solve solver inp obj cs = Inr None"
    by (elim exE conjE)
  then show ?thesis by (intro exI [of _ sat] conjI)
qed

theorem solve_no_solution_witness:
  "makeLP end_to_end = Inr (end_to_end_objective, end_to_end_constraints)
   \<and> solve (\<lambda>_. None) end_to_end end_to_end_objective end_to_end_constraints = Inr None"
  using solve_no_solution [OF end_to_end_makeLP, of "\<lambda>_. None"]
  by (simp add: end_to_end_makeLP)

text \<open>
  C7 (as amended). For every objective and constraint list in which no two different
  variable instances share a name, \<^verbatim>\<open>saturate\<close> returns a new expression whose
  variables are exactly those of the constraints together with those of the objective:
  every variable of the objective keeps its coefficient, and a variable that occurs in
  constraints only gets 0. When two different instances share a name, \<^verbatim>\<open>saturate\<close>
  throws instead: the error is \<^verbatim>\<open>Mismatching variable named\<close> followed by a name that
  two instances share. The expressions are those the program can build, which
  satisfy \<open>wf_expr\<close> (\<open>new_LinExpr_wf\<close>, \<open>new_Constraint_wf\<close>, \<open>setCoefficient_wf\<close>).
\<close>

theorem saturate_union:
  assumes "wf_expr obj" "\<forall>c \<in> set cs. wf_expr c"
  shows "(inj_on Var.name (vars obj \<union> (\<Union>c \<in> set cs. vars c)) \<longrightarrow>
            (\<exists>s. saturate obj cs = Inr s
               \<and> vars s = (\<Union>c \<in> set cs. vars c) \<union> vars obj
               \<and> (\<forall>v \<in> vars obj. coeff s v = coeff obj v)
               \<and> (\<forall>v \<in> (\<Union>c \<in> set cs. vars c) - vars obj. coeff s v = Some 0)))
       \<and> (\<not> inj_on Var.name (vars obj \<union> (\<Union>c \<in> set cs. vars c)) \<longrightarrow>
            (\<exists>v \<in> vars obj \<union> (\<Union>c \<in> set cs. vars c).
             \<exists>w \<in> vars obj \<union> (\<Union>c \<in> set cs. vars c).
               v \<noteq> w \<and> Var.name v = Var.name w
               \<and> saturate obj cs = Inl (Error (''Mismatching variable named '' @ Var.name v))))"
proof (intro conjI impI)
  assume "inj_on Var.name (vars obj \<union> (\<Union>c \<in> set cs. vars c))"
  from saturate_result [OF assms this]
  show "\<exists>s. saturate obj cs = Inr s
          \<and> vars s = (\<Union>c \<in> set cs. vars c) \<union> vars obj
          \<and> (\<forall>v \<in> vars obj. coeff s v = coeff obj v)
          \<and> (\<forall>v \<in> (\<Union>c \<in> set cs. vars c) - vars obj. coeff s v = Some 0)"
    by blast
next
  assume "\<not> inj_on Var.name (vars obj \<union> (\<Union>c \<in> set cs. vars c))"
  with assms show "\<exists>v \<in> vars obj \<union> (\<Union>c \<in> set cs. vars c).
      \<exists>w \<in> vars obj \<union> (\<Union>c \<in> set cs. vars c).
        v \<noteq> w \<and> Var.name v = Var.name w
        \<and> saturate obj cs = Inl (Error (''Mismatching variable named '' @ Var.name v))"
    by (rule saturate_clash)
qed

theorem saturate_union_witness:
  "wf_expr objective_x \<and> wf_expr constraint_xy
   \<and> inj_on Var.name (vars objective_x \<union> vars constraint_xy)
   \<and> (\<exists>s. saturate objective_x [constraint_xy] = Inr s \<and> vars s = {x_first, y_only}
         \<and> coeff s x_first = Some 2 \<and> coeff s y_only = Some 0)
   \<and> wf_expr constraint_x_second
   \<and> \<not> inj_on Var.name (vars objective_x \<union> vars constraint_x_second)
   \<and> saturate objective_x [constraint_x_second] = Inl (Error ''Mismatching variable named x'')"
proof -
  have wf: "wf_expr objective_x" "\<forall>c \<in> set [constraint_xy]. wf_expr c"
    by (simp_all add: example_defs eval_defs)
  have v: "vars objective_x = {x_first}" "vars constraint_xy = {x_first, y_only}"
    by (simp_all add: example_defs eval_defs)
  have "inj_on Var.name {x_first, y_only}"
    by (simp add: inj_on_def example_defs)
  moreover have "vars objective_x \<union> (\<Union>c \<in> set [constraint_xy]. vars c) = {x_first, y_only}"
    by (auto simp: v)
  ultimately have inj: "inj_on Var.name (vars objective_x \<union> (\<Union>c \<in> set [constraint_xy]. vars c))"
    by simp
  have c: "coeff objective_x x_first = Some 2" "y_only \<noteq> x_first"
    by (simp_all add: example_defs eval_defs)
  from saturate_union [OF wf] inj obtain s where
    "saturate objective_x [constraint_xy] = Inr s"
    "vars s = (\<Union>c \<in> set [constraint_xy]. vars c) \<union> vars objective_x"
    "\<forall>v \<in> vars objective_x. coeff s v = coeff objective_x v"
    "\<forall>v \<in> (\<Union>c \<in> set [constraint_xy]. vars c) - vars objective_x. coeff s v = Some 0"
    by blast
  then have "saturate objective_x [constraint_xy] = Inr s \<and> vars s = {x_first, y_only}
      \<and> coeff s x_first = Some 2 \<and> coeff s y_only = Some 0"
    using c by (auto simp: v)
  then have first: "\<exists>s. saturate objective_x [constraint_xy] = Inr s \<and> vars s = {x_first, y_only}
      \<and> coeff s x_first = Some 2 \<and> coeff s y_only = Some 0" ..
  have wf2: "\<forall>c \<in> set [constraint_x_second]. wf_expr c"
    by (simp add: example_defs eval_defs)
  have u: "vars objective_x \<union> (\<Union>c \<in> set [constraint_x_second]. vars c) = {x_first, x_second}"
    by (auto simp: example_defs eval_defs)
  have n: "Var.name x_first = ''x''" "Var.name x_second = ''x''"
    by (simp_all add: example_defs)
  have ninj: "\<not> inj_on Var.name {x_first, x_second}"
    by (simp add: inj_on_def example_defs)
  from saturate_union [OF wf(1) wf2] ninj obtain v' where "v' \<in> {x_first, x_second}"
    "saturate objective_x [constraint_x_second]
       = Inl (Error (''Mismatching variable named '' @ Var.name v'))"
    unfolding u by blast
  with n have second: "saturate objective_x [constraint_x_second]
      = Inl (Error ''Mismatching variable named x'')" by auto
  from ninj u have "\<not> inj_on Var.name (vars objective_x \<union> vars constraint_x_second)" by simp
  with first second wf wf2 inj show ?thesis by (simp add: v)
qed

theorem saturate_collision_counterexample:
  "wf_expr objective_x \<and> wf_expr constraint_x_second
   \<and> saturate objective_x [constraint_x_second] = Inl (Error ''Mismatching variable named x'')"
  by (simp add: example_defs eval_defs)

text \<open>
  C8 (as amended). For every objective and constraint list that the program can build
  (\<open>wf_expr\<close>) and in which no two different variable instances share a name,
  \<^verbatim>\<open>exportAsLP\<close> returns exactly the text of
  \<open>spec_export\<close> for the variables of the saturated objective, which are the
  variables of the constraints and of the objective: the \<^verbatim>\<open>minimize\<close> line, one line
  for the bounds of each bounded variable that is not boolean, one line per constraint,
  an empty line, and the \<^verbatim>\<open>bin\<close> and \<^verbatim>\<open>int\<close> lines when there are such variables.
  A coefficient 1 is left out and -1 is a bare minus; the first term has no \<open>+\<close> in
  front but starts with \<open>-\<close> and a blank when its coefficient is negative; a constraint
  with an empty name has no name and colon in front. When two different instances
  share a name, \<^verbatim>\<open>exportAsLP\<close> throws instead and returns no text: the error is
  \<^verbatim>\<open>Mismatching variable named\<close> followed by a name that two instances share.
\<close>

theorem exportAsLP_text:
  assumes "wf_expr obj" "\<forall>c \<in> set cs. wf_expr c"
  shows "(inj_on Var.name (vars obj \<union> (\<Union>c \<in> set cs. vars c)) \<longrightarrow>
            (\<exists>sat. saturate obj cs = Inr sat
               \<and> set (map fst (getVarCoefficients sat)) = (\<Union>c \<in> set cs. vars c) \<union> vars obj
               \<and> exportAsLP num obj cs
                   = Inr (spec_export num (map fst (getVarCoefficients sat)) obj cs)))
       \<and> (\<not> inj_on Var.name (vars obj \<union> (\<Union>c \<in> set cs. vars c)) \<longrightarrow>
            (\<exists>v \<in> vars obj \<union> (\<Union>c \<in> set cs. vars c).
             \<exists>w \<in> vars obj \<union> (\<Union>c \<in> set cs. vars c).
               v \<noteq> w \<and> Var.name v = Var.name w
               \<and> exportAsLP num obj cs
                   = Inl (Error (''Mismatching variable named '' @ Var.name v))))"
proof (intro conjI impI)
  assume inj: "inj_on Var.name (vars obj \<union> (\<Union>c \<in> set cs. vars c))"
  from exportAsLP_spec [OF assms inj, of num] obtain sat where
    sat: "saturate obj cs = Inr sat"
      "exportAsLP num obj cs = Inr (spec_export num (map fst (getVarCoefficients sat)) obj cs)"
    by blast
  from saturate_result [OF assms inj] sat(1)
  have "vars sat = (\<Union>c \<in> set cs. vars c) \<union> vars obj" by auto
  then have "set (map fst (getVarCoefficients sat)) = (\<Union>c \<in> set cs. vars c) \<union> vars obj"
    by (simp add: vars_def)
  with sat show "\<exists>sat. saturate obj cs = Inr sat
      \<and> set (map fst (getVarCoefficients sat)) = (\<Union>c \<in> set cs. vars c) \<union> vars obj
      \<and> exportAsLP num obj cs = Inr (spec_export num (map fst (getVarCoefficients sat)) obj cs)"
    by blast
next
  assume "\<not> inj_on Var.name (vars obj \<union> (\<Union>c \<in> set cs. vars c))"
  from saturate_clash [OF assms this] obtain v w where
    vw: "v \<in> vars obj \<union> (\<Union>c \<in> set cs. vars c)" "w \<in> vars obj \<union> (\<Union>c \<in> set cs. vars c)"
      "v \<noteq> w" "Var.name v = Var.name w"
      "saturate obj cs = Inl (Error (''Mismatching variable named '' @ Var.name v))"
    by blast
  from exportAsLP_clash [OF vw(5)]
  have "exportAsLP num obj cs = Inl (Error (''Mismatching variable named '' @ Var.name v))" .
  with vw(1-4) show "\<exists>v \<in> vars obj \<union> (\<Union>c \<in> set cs. vars c).
      \<exists>w \<in> vars obj \<union> (\<Union>c \<in> set cs. vars c).
        v \<noteq> w \<and> Var.name v = Var.name w
        \<and> exportAsLP num obj cs = Inl (Error (''Mismatching variable named '' @ Var.name v))"
    by blast
qed

theorem exportAsLP_text_witness:
  "wf_expr end_to_end_objective \<and> list_all wf_expr end_to_end_constraints
   \<and> inj_on Var.name (vars end_to_end_objective \<union> (\<Union>c \<in> set end_to_end_constraints. vars c))
   \<and> exportAsLP num_example end_to_end_objective end_to_end_constraints =
       Inr (''minimize: a[0][0..0] + time[0];\<newline>''
            @ ''c[time[0]]: 0 <= time[0];\<newline>''
            @ ''timeCounted[0]: 0 <= - a[0][0..0] + time[0];\<newline>''
            @ ''enough[0]: 1 <= a[0][0..0];\<newline>''
            @ ''disjoint[0][0]: a[0][0..0] <= 1;\<newline>''
            @ ''\<newline>''
            @ ''bin a[0][0..0];\<newline>'')
   \<and> wf_expr objective_x \<and> wf_expr constraint_x_second
   \<and> \<not> inj_on Var.name (vars objective_x \<union> vars constraint_x_second)
   \<and> exportAsLP num_example objective_x [constraint_x_second]
       = Inl (Error ''Mismatching variable named x'')"
proof -
  have wfs: "\<forall>c \<in> set end_to_end_constraints. wf_expr c"
    using end_to_end_wf(2) by (simp add: list_all_iff)
  from exportAsLP_text [OF end_to_end_wf(1) wfs, of num_example] end_to_end_inj
  have "exportAsLP num_example end_to_end_objective end_to_end_constraints
      = Inr (spec_export num_example (map fst (getVarCoefficients end_to_end_objective))
               end_to_end_objective end_to_end_constraints)"
    by (simp add: end_to_end_saturate)
  also have "spec_export num_example (map fst (getVarCoefficients end_to_end_objective))
               end_to_end_objective end_to_end_constraints
      = ''minimize: a[0][0..0] + time[0];\<newline>''
            @ ''c[time[0]]: 0 <= time[0];\<newline>''
            @ ''timeCounted[0]: 0 <= - a[0][0..0] + time[0];\<newline>''
            @ ''enough[0]: 1 <= a[0][0..0];\<newline>''
            @ ''disjoint[0][0]: a[0][0..0] <= 1;\<newline>''
            @ ''\<newline>''
            @ ''bin a[0][0..0];\<newline>''"
    by (simp add: spec_export_def spec_line_def spec_bound_line_def spec_bounded_def spec_decl_def
        spec_coeff_def num_example_0_1 end_to_end_defs eval_defs example_defs set_auxData_def
        isBool_def isInt_def isReal_def bounded_def)
  finally have first: "exportAsLP num_example end_to_end_objective end_to_end_constraints =
       Inr (''minimize: a[0][0..0] + time[0];\<newline>''
            @ ''c[time[0]]: 0 <= time[0];\<newline>''
            @ ''timeCounted[0]: 0 <= - a[0][0..0] + time[0];\<newline>''
            @ ''enough[0]: 1 <= a[0][0..0];\<newline>''
            @ ''disjoint[0][0]: a[0][0..0] <= 1;\<newline>''
            @ ''\<newline>''
            @ ''bin a[0][0..0];\<newline>'')" .
  have wf2: "wf_expr objective_x" "\<forall>c \<in> set [constraint_x_second]. wf_expr c"
    by (simp_all add: example_defs eval_defs)
  have u: "vars objective_x \<union> (\<Union>c \<in> set [constraint_x_second]. vars c) = {x_first, x_second}"
    by (auto simp: example_defs eval_defs)
  have n: "Var.name x_first = ''x''" "Var.name x_second = ''x''"
    by (simp_all add: example_defs)
  have ninj: "\<not> inj_on Var.name {x_first, x_second}"
    by (simp add: inj_on_def example_defs)
  from exportAsLP_text [OF wf2, of num_example] ninj obtain v' where "v' \<in> {x_first, x_second}"
    "exportAsLP num_example objective_x [constraint_x_second]
       = Inl (Error (''Mismatching variable named '' @ Var.name v'))"
    unfolding u by blast
  with n have second: "exportAsLP num_example objective_x [constraint_x_second]
      = Inl (Error ''Mismatching variable named x'')" by auto
  from ninj u have "\<not> inj_on Var.name (vars objective_x \<union> vars constraint_x_second)" by simp
  with first second wf2 end_to_end_wf end_to_end_inj show ?thesis by simp
qed

text \<open>
  Three outputs outside the format as the specification words it. With one
  instance named \<^verbatim>\<open>x\<close> in the objective and another in a constraint there is no text
  but an error. With the objective \<open>-2 x\<close> and the constraint \<open>0 \<le> x\<close> created with
  the empty name, the \<^verbatim>\<open>minimize\<close> line starts its first term with \<open>-\<close> and a blank,
  and the line of the constraint has no name and no colon.
\<close>

theorem exportAsLP_collision_counterexample:
  "wf_expr objective_x \<and> wf_expr constraint_x_second
   \<and> exportAsLP num_example objective_x [constraint_x_second]
       = Inl (Error ''Mismatching variable named x'')
   \<and> wf_expr objective_negative \<and> wf_expr constraint_unnamed
   \<and> exportAsLP num_example objective_negative [constraint_unnamed]
       = Inr (''minimize: - 2 x;\<newline>'' @ ''0 <= x;\<newline>'' @ ''\<newline>'')"
proof -
  have "exportAsLP num_example objective_x [constraint_x_second]
      = Inl (Error ''Mismatching variable named x'')"
    by (simp add: exportAsLP_def example_defs eval_defs)
  moreover have "exportAsLP num_example objective_negative [constraint_unnamed]
      = Inr (''minimize: - 2 x;\<newline>'' @ ''0 <= x;\<newline>'' @ ''\<newline>'')"
    by (simp add: exportAsLP_def example_defs eval_defs toString_def term_text_def toLP_def
        Constraint_toString_def num_example_0_1 num_example_2 isBool_def isInt_def isReal_def
        bounded_def Let_def)
  moreover have "wf_expr objective_x" "wf_expr constraint_x_second" "wf_expr objective_negative"
    "wf_expr constraint_unnamed"
    by (simp_all add: example_defs eval_defs)
  ultimately show ?thesis by simp
qed

text \<open>
  C9. \<^verbatim>\<open>setCoefficient\<close> is meant to throw only when a different variable instance
  occupies the name, and otherwise to store the coefficient, replacing an earlier one
  (\<open>setCoefficient_clash\<close>, \<open>setCoefficient_ok\<close> and \<open>setCoefficient_twice\<close> show this
  for every name that is not inherited). On the empty expression it throws for a
  variable named \<^verbatim>\<open>constructor\<close>, although no variable occupies that name: the table
  is a plain object, and reading \<^verbatim>\<open>keys["constructor"]\<close> finds the inherited member.
\<close>

theorem setCoefficient_inherited_name:
  "vars (new_LinExpr :: unit LinExpr) = {}
   \<and> setCoefficient (new_LinExpr :: unit LinExpr) (RealVar 0 ''constructor'' None None) 1
       = Inl (Error ''Mismatching variable named constructor'')"
  by (simp add: example_defs eval_defs)

text \<open>
  C10. The decoded grid respects availability: a cell \<open>(r, t)\<close> that is true in the
  grid returned by \<^verbatim>\<open>solve\<close> has \<^verbatim>\<open>available[t][r]\<close> true.
\<close>

theorem grid_respects_availability:
  assumes "makeLP inp = Inr (obj, cs)" "solve solver inp obj cs = Inr (Some grid)"
    and "r < numRiders inp" "t < numTimeSlices inp" "grid ! r ! t = Some True"
  shows "available inp ! t ! r"
proof -
  note b = makeLP_built [OF assms(1)]
  from solve_grid [OF b, of solver] obtain sat where
    none: "solver (make_engine sat cs) = None \<longrightarrow> solve solver inp obj cs = Inr None"
    and some: "\<forall>sol. solver (make_engine sat cs) = Some sol \<longrightarrow>
       (\<exists>grid. solve solver inp obj cs = Inr (Some grid)
          \<and> grid_shape (numRiders inp) (numTimeSlices inp) grid
          \<and> (\<forall>r < numRiders inp. \<forall>t < numTimeSlices inp.
                grid ! r ! t = Some (\<exists>v \<in> vars obj. sol (Var.name v) > 0.5 \<and> covers v r t)))"
    by (elim exE conjE)
  from none assms(2) obtain sol where "solver (make_engine sat cs) = Some sol"
    by (cases "solver (make_engine sat cs)") auto
  with some assms(2) have "\<forall>r < numRiders inp. \<forall>t < numTimeSlices inp.
      grid ! r ! t = Some (\<exists>v \<in> vars obj. sol (Var.name v) > 0.5 \<and> covers v r t)"
    by auto
  with assms(3-5) obtain v where v: "v \<in> vars obj" "covers v r t" by auto
  then obtain a where a: "auxData v = Some a" "rider a = r" "t1 a \<le> t" "t \<le> t2 a"
    by (auto simp: covers_def split: option.splits)
  from built_in_range [OF b v(1) a(1)] a(2-4) show ?thesis
    by (simp add: feasible_def)
qed

theorem grid_respects_availability_witness:
  "makeLP end_to_end = Inr (end_to_end_objective, end_to_end_constraints)
   \<and> solve (\<lambda>_. Some (\<lambda>_. 1)) end_to_end end_to_end_objective end_to_end_constraints
       = Inr (Some [[Some True]])
   \<and> 0 < numRiders end_to_end \<and> 0 < numTimeSlices end_to_end
   \<and> [[Some True]] ! 0 ! 0 = Some True \<and> available end_to_end ! 0 ! 0"
proof -
  have d: "0 < numRiders end_to_end" "0 < numTimeSlices end_to_end"
    by (simp_all add: end_to_end_def numRiders_def numTimeSlices_def)
  have "[[Some True]] ! 0 ! 0 = Some True" by simp
  from grid_respects_availability [OF end_to_end_makeLP end_to_end_solve d this]
  show ?thesis using d by (simp add: end_to_end_makeLP end_to_end_solve)
qed

end
